theory Spec2Isabelle
  imports Main "HOL-Library.AList" "HOL-Library.Char_ord" "HOL-Library.List_Lexorder"
begin

chapter \<open>Pi Messenger: the file-backed coordination store (src/store.ts) and the
  review verdict parser (src/crew/utils/verdict.ts)\<close>

section \<open>JavaScript values\<close>

subsection \<open>Strings read character by character\<close>

text \<open>
  A JavaScript string is a sequence of UTF-16 code units. File contents that the code
  scans character by character (the lock file, a reviewer's output) are lists of code
  units; names, keys and time stamps, which the code only compares, are \<open>string\<close>s.
\<close>

type_synonym jsstring = "nat list"

definition js :: "string \<Rightarrow> jsstring" where
  "js s = map of_char s"

text \<open>WhiteSpace and LineTerminator of ECMAScript: what \<open>\s\<close>, \<open>trim\<close> and
  \<open>parseInt\<close> skip.\<close>

definition isWhiteSpace :: "nat \<Rightarrow> bool" where
  "isWhiteSpace c =
     (c = 9 \<or> c = 10 \<or> c = 11 \<or> c = 12 \<or> c = 13 \<or> c = 32 \<or> c = 160 \<or> c = 5760
      \<or> (8192 \<le> c \<and> c \<le> 8202) \<or> c = 8232 \<or> c = 8233 \<or> c = 8239 \<or> c = 8287
      \<or> c = 12288 \<or> c = 65279)"

definition trimStart :: "jsstring \<Rightarrow> jsstring" where
  "trimStart s = dropWhile isWhiteSpace s"

definition trim :: "jsstring \<Rightarrow> jsstring" where
  "trim s = rev (dropWhile isWhiteSpace (rev (dropWhile isWhiteSpace s)))"

definition isDigit :: "nat \<Rightarrow> bool" where
  "isDigit c = (48 \<le> c \<and> c \<le> 57)"

definition digitsValue :: "nat list \<Rightarrow> nat" where
  "digitsValue ds = foldl (\<lambda>a c. 10 * a + (c - 48)) 0 ds"

text \<open>
  \<open>parseInt(s, 10)\<close>: leading white space, an optional sign, then the longest run of
  decimal digits; \<open>None\<close> is NaN. The value is the exact integer (a JavaScript number
  rounds beyond \<open>2^53\<close>, far above any process id).
\<close>

definition parseInt :: "jsstring \<Rightarrow> int option" where
  "parseInt s =
     (let t = trimStart s;
          neg = (t \<noteq> [] \<and> hd t = 45);
          u = (if t \<noteq> [] \<and> (hd t = 43 \<or> hd t = 45) then tl t else t);
          ds = takeWhile isDigit u
      in if ds = [] then None
         else Some (if neg then - int (digitsValue ds) else int (digitsValue ds)))"

fun natDigits :: "nat \<Rightarrow> nat list" where
  "natDigits n = (if n < 10 then [48 + n] else natDigits (n div 10) @ [48 + n mod 10])"

declare natDigits.simps [simp del]

text \<open>\<open>String(n)\<close> of an integer, as code units and as a \<open>string\<close>.\<close>

definition String_int :: "int \<Rightarrow> jsstring" where
  "String_int i = (if i < 0 then 45 # natDigits (nat (- i)) else natDigits (nat i))"

definition String_nat :: "nat \<Rightarrow> string" where
  "String_nat n = map char_of (natDigits n)"

subsection \<open>Objects\<close>

text \<open>
  A plain object is the list of its own properties in the order \<open>Object.entries\<close>
  lists them: the array-index keys (canonical decimal numerals below \<open>2^32 - 1\<close>) in
  ascending numeric order first, then the other keys in the order of their creation.
  \<open>map_of\<close> reads an own property, \<open>AList.delete\<close> is \<open>delete o[k]\<close>, and
  \<open>obj_set\<close> is the assignment \<open>o[k] = v\<close> that stores an own property.

  Two things of JavaScript lie outside these lists. A read \<open>o[k]\<close> of a key that is
  not an own property finds what \<open>Object.prototype\<close> defines under that name; the
  names are listed in \<open>Object_prototype_keys\<close>, and \<open>plain_key\<close> says that a key is none
  of them. An assignment \<open>o["__proto__"] = v\<close> to an object without that own property
  sets the prototype and stores nothing; \<open>JSON.parse\<close> alone makes such an own
  property. The statements about reads by key assume \<open>plain_key\<close> of the keys read, and
  the statements about the loops that assign assume that no key is \<open>__proto__\<close>
  (\<open>js_ordered\<close>).
\<close>

type_synonym 'v obj = "(string \<times> 'v) list"

definition array_index :: "string \<Rightarrow> nat option" where
  "array_index k =
     (let ds = map of_char k
      in if k \<noteq> [] \<and> list_all isDigit ds \<and> (length k = 1 \<or> hd k \<noteq> CHR ''0'')
            \<and> digitsValue ds < 2 ^ 32 - 1
         then Some (digitsValue ds) else None)"

fun insert_index :: "nat \<Rightarrow> string \<Rightarrow> 'v \<Rightarrow> 'v obj \<Rightarrow> 'v obj" where
  "insert_index n k v [] = [(k, v)]"
| "insert_index n k v ((k', v') # kvs) =
     (case array_index k' of
        Some m \<Rightarrow> if m < n then (k', v') # insert_index n k v kvs else (k, v) # (k', v') # kvs
      | None \<Rightarrow> (k, v) # (k', v') # kvs)"

definition obj_set :: "string \<Rightarrow> 'v \<Rightarrow> 'v obj \<Rightarrow> 'v obj" where
  "obj_set k v ob =
     (if k \<in> fst ` set ob then AList.update k v ob
      else case array_index k of
             Some n \<Rightarrow> insert_index n k v ob
           | None \<Rightarrow> ob @ [(k, v)])"

text \<open>The own property names of \<open>Object.prototype\<close>.\<close>

definition Object_prototype_keys :: "string list" where
  "Object_prototype_keys =
     [''constructor'', ''__defineGetter__'', ''__defineSetter__'', ''hasOwnProperty'',
      ''__lookupGetter__'', ''__lookupSetter__'', ''isPrototypeOf'', ''propertyIsEnumerable'',
      ''toString'', ''valueOf'', ''__proto__'', ''toLocaleString'']"

definition plain_key :: "string \<Rightarrow> bool" where
  "plain_key k = (k \<notin> set Object_prototype_keys)"

text \<open>
  The order every object that the program builds has: no key twice, the array-index
  keys first and ascending, and no key \<open>__proto__\<close>.
\<close>

definition key_before :: "string \<Rightarrow> string \<Rightarrow> bool" where
  "key_before a b =
     (case array_index a of
        Some m \<Rightarrow> (case array_index b of Some n \<Rightarrow> m < n | None \<Rightarrow> True)
      | None \<Rightarrow> array_index b = None)"

definition js_ordered :: "'v obj \<Rightarrow> bool" where
  "js_ordered ob =
     (distinct (map fst ob) \<and> sorted_wrt key_before (map fst ob)
      \<and> ''__proto__'' \<notin> set (map fst ob))"

subsection \<open>Thrown errors\<close>

datatype exn = Error string | ErrnoException string

section \<open>The shared directory\<close>

text \<open>
  A JSON file that exists either parses to a value of the type the code casts it to,
  or reading and parsing it throws.
\<close>

datatype 'a json_file = Malformed | Parsed 'a

record session_stats =
  toolCalls :: nat
  tokens :: nat
  filesModified :: "string list"

record AgentRegistration =
  name :: string
  pid :: int
  sessionId :: string
  cwd :: string
  model :: string
  startedAt :: string
  reservations :: "(string \<times> string) list option"
  gitBranch :: "string option"
  spec :: "string option"
  isHuman :: bool
  session :: session_stats
  lastActivityAt :: string
  statusMessage :: "string option"

record ClaimEntry =
  agent :: string
  sessionId :: string
  pid :: int
  claimedAt :: string
  reason :: "string option"

record CompletionEntry =
  completedBy :: string
  completedAt :: string
  completion_notes :: "string option"

type_synonym SpecClaims = "ClaimEntry obj"
type_synonym AllClaims = "SpecClaims obj"
type_synonym SpecCompletions = "CompletionEntry obj"
type_synonym AllCompletions = "SpecCompletions obj"

record AgentMailMessage =
  msg_id :: string
  msg_from :: string
  msg_to :: string
  msg_text :: string
  timestamp :: string
  replyTo :: "string option"

text \<open>
  \<open>swarm.lock\<close>: its modification time in whole milliseconds (the code compares
  \<open>Date.now() - mtimeMs\<close>, an integer minus the time, with an integer bound, which the
  floor of \<open>mtimeMs\<close> decides as well) and its content, \<open>None\<close> when reading it throws.
\<close>

record lockfile =
  mtimeMs :: int
  content :: "jsstring option"

text \<open>
  An inbox file: reading it throws, its content is not JSON, or it parses to a
  message. A directory is the list of its files as \<open>readdirSync\<close> returns them.
\<close>

datatype inbox_file = Unreadable | NotJson | Msg AgentMailMessage

record fs =
  swarm_lock :: "lockfile option"
  claims_json :: "AllClaims json_file option"
  completions_json :: "AllCompletions json_file option"
  registry :: "string \<rightharpoonup> AgentRegistration json_file"
  inbox :: "string \<rightharpoonup> (string \<times> inbox_file) list"

text \<open>
  What the operating system and the other processes answer. \<open>isProcessAlive\<close> is
  imported from \<open>lib.js\<close>, which is not among the sources: it is a parameter. The
  other fields are the answers of one call of a locked operation: the clock at the
  i-th attempt to take the lock, what other processes did to \<open>swarm.lock\<close> before that
  attempt, an error of \<open>openSync\<close> other than EEXIST, and the target files whose
  write (temporary file, then rename) throws.
\<close>

record sys =
  isProcessAlive :: "int \<Rightarrow> bool"
  process_pid :: int
  date_now :: "nat \<Rightarrow> int"
  lock_interference :: "nat \<Rightarrow> lockfile option \<Rightarrow> lockfile option"
  open_errno :: "nat \<Rightarrow> string option"
  write_error :: "string \<Rightarrow> string option"

section \<open>The advisory lock\<close>

definition LOCK_STALE_MS :: int where
  "LOCK_STALE_MS = 10000"

definition maxRetries :: nat where
  "maxRetries = 50"

definition retryDelay :: nat where
  "retryDelay = 100"

text \<open>
  The first \<open>try\<close> block of an iteration of \<open>withSwarmLock\<close>: what is left of the lock
  file the iteration finds. \<open>statSync\<close> throws when there is none; a lock older than
  \<open>LOCK_STALE_MS\<close> is unlinked when its content yields no process id
  (\<open>!pid\<close>: NaN or 0), when that process is dead, or when reading it throws.
\<close>

definition removeStaleLock :: "(int \<Rightarrow> bool) \<Rightarrow> int \<Rightarrow> lockfile option \<Rightarrow> lockfile option" where
  "removeStaleLock alive now lk =
     (case lk of
        None \<Rightarrow> None
      | Some l \<Rightarrow>
          if now - mtimeMs l > LOCK_STALE_MS then
            (case content l of
               None \<Rightarrow> None
             | Some s \<Rightarrow>
                 (case parseInt (trim s) of
                    None \<Rightarrow> None
                  | Some p \<Rightarrow> if p = 0 \<or> \<not> alive p then None else Some l))
          else Some l)"

text \<open>What an iteration does, in order.\<close>

datatype lock_event = UnlinkStale | OpenExcl | Sleep nat

record acquisition =
  outcome :: "exn + unit"
  lock_left :: "lockfile option"
  events :: "lock_event list"

text \<open>
  The loop of \<open>withSwarmLock\<close> from iteration \<open>i\<close> on. \<open>openSync\<close> with
  \<open>O_CREAT | O_EXCL\<close> fails with EEXIST when the lock file is there, and otherwise as
  the system answers; the lock taken holds \<open>String(process.pid)\<close>.
\<close>

function acquire :: "sys \<Rightarrow> nat \<Rightarrow> lockfile option \<Rightarrow> lock_event list \<Rightarrow> acquisition" where
  "acquire s i lk evs =
     (if i < maxRetries then
        (let seen = lock_interference s i lk;
             lk1 = removeStaleLock (isProcessAlive s) (date_now s i) seen;
             evs1 = evs @ (if seen \<noteq> None \<and> lk1 = None then [UnlinkStale] else []) @ [OpenExcl]
         in case (case lk1 of Some _ \<Rightarrow> Some ''EEXIST'' | None \<Rightarrow> open_errno s i) of
              None \<Rightarrow>
                \<lparr>outcome = Inr (),
                 lock_left = Some \<lparr>mtimeMs = date_now s i,
                                   content = Some (String_int (process_pid s))\<rparr>,
                 events = evs1\<rparr>
            | Some code \<Rightarrow>
                if code = ''EEXIST'' then
                  (if i = maxRetries - 1
                   then \<lparr>outcome = Inl (Error ''Failed to acquire swarm lock''),
                         lock_left = lk1, events = evs1\<rparr>
                   else acquire s (i + 1) lk1 (evs1 @ [Sleep retryDelay]))
                else \<lparr>outcome = Inl (ErrnoException code), lock_left = lk1, events = evs1\<rparr>)
      else \<lparr>outcome = Inr (), lock_left = lk, events = evs\<rparr>)"
  by pat_completeness auto
termination
  by (relation "measure (\<lambda>(s, i, lk, evs). maxRetries - i)") auto

declare acquire.simps [simp del]

text \<open>
  \<open>withSwarmLock(baseDir, fn)\<close>: a function run under the lock returns a value or
  throws, and may change the directory; the \<open>finally\<close> block unlinks the lock either
  way.
\<close>

definition withSwarmLock :: "sys \<Rightarrow> (fs \<Rightarrow> (exn + 'a) \<times> fs) \<Rightarrow> fs \<Rightarrow> (exn + 'a) \<times> fs" where
  "withSwarmLock s fn f =
     (let a = acquire s 0 (swarm_lock f) []
      in case outcome a of
           Inl e \<Rightarrow> (Inl e, f\<lparr>swarm_lock := lock_left a\<rparr>)
         | Inr _ \<Rightarrow>
             (case fn (f\<lparr>swarm_lock := lock_left a\<rparr>) of
                (r, f') \<Rightarrow> (r, f'\<lparr>swarm_lock := None\<rparr>)))"

subsection \<open>Stale locks and attempts, for the properties\<close>

text \<open>
  The specification's words: a lock is stale when its mtime is older than 10 s and the
  process id it contains is dead.
\<close>

definition spec_pid_dead :: "(int \<Rightarrow> bool) \<Rightarrow> lockfile \<Rightarrow> bool" where
  "spec_pid_dead alive l =
     (case content l of
        None \<Rightarrow> False
      | Some s \<Rightarrow> (case parseInt (trim s) of None \<Rightarrow> False | Some p \<Rightarrow> \<not> alive p))"

definition spec_lock_stale :: "(int \<Rightarrow> bool) \<Rightarrow> int \<Rightarrow> lockfile \<Rightarrow> bool" where
  "spec_lock_stale alive now l = (now - mtimeMs l > 10000 \<and> spec_pid_dead alive l)"

text \<open>A lock file that yields no process id: it cannot be read, it holds no number,
  or it holds 0.\<close>

definition no_pid :: "lockfile \<Rightarrow> bool" where
  "no_pid l =
     (case content l of
        None \<Rightarrow> True
      | Some s \<Rightarrow> (case parseInt (trim s) of None \<Rightarrow> True | Some p \<Rightarrow> p = 0))"

definition opens :: "lock_event list \<Rightarrow> nat" where
  "opens evs = length (filter (\<lambda>e. e = OpenExcl) evs)"

definition sleeps :: "lock_event list \<Rightarrow> lock_event list" where
  "sleeps evs = filter (\<lambda>e. case e of Sleep d \<Rightarrow> True | _ \<Rightarrow> False) evs"

definition seen_lock :: "sys \<Rightarrow> nat \<Rightarrow> lockfile option \<Rightarrow> lockfile option" where
  "seen_lock s i lk = removeStaleLock (isProcessAlive s) (date_now s i) (lock_interference s i lk)"

definition open_result :: "sys \<Rightarrow> nat \<Rightarrow> lockfile option \<Rightarrow> string option" where
  "open_result s i lk = (case seen_lock s i lk of Some _ \<Rightarrow> Some ''EEXIST'' | None \<Rightarrow> open_errno s i)"

definition attempt_events :: "sys \<Rightarrow> nat \<Rightarrow> lockfile option \<Rightarrow> lock_event list" where
  "attempt_events s i lk =
     (if lock_interference s i lk \<noteq> None \<and> seen_lock s i lk = None then [UnlinkStale] else [])
     @ [OpenExcl]"

section \<open>Swarm coordination\<close>

definition CLAIMS_FILE :: string where
  "CLAIMS_FILE = ''claims.json''"

definition COMPLETIONS_FILE :: string where
  "COMPLETIONS_FILE = ''completions.json''"

definition readClaimsSync :: "fs \<Rightarrow> AllClaims" where
  "readClaimsSync f = (case claims_json f of Some (Parsed c) \<Rightarrow> c | _ \<Rightarrow> [])"

definition readCompletionsSync :: "fs \<Rightarrow> AllCompletions" where
  "readCompletionsSync f = (case completions_json f of Some (Parsed c) \<Rightarrow> c | _ \<Rightarrow> [])"

text \<open>Write to a temporary file, then rename: the target changes or the call throws.\<close>

definition writeClaimsSync :: "sys \<Rightarrow> AllClaims \<Rightarrow> fs \<Rightarrow> (exn + unit) \<times> fs" where
  "writeClaimsSync s claims f =
     (case write_error s CLAIMS_FILE of
        Some code \<Rightarrow> (Inl (ErrnoException code), f)
      | None \<Rightarrow> (Inr (), f\<lparr>claims_json := Some (Parsed claims)\<rparr>))"

definition writeCompletionsSync :: "sys \<Rightarrow> AllCompletions \<Rightarrow> fs \<Rightarrow> (exn + unit) \<times> fs" where
  "writeCompletionsSync s completions f =
     (case write_error s COMPLETIONS_FILE of
        Some code \<Rightarrow> (Inl (ErrnoException code), f)
      | None \<Rightarrow> (Inr (), f\<lparr>completions_json := Some (Parsed completions)\<rparr>))"

definition isClaimStale ::
  "(int \<Rightarrow> bool) \<Rightarrow> (string \<rightharpoonup> AgentRegistration json_file) \<Rightarrow> ClaimEntry \<Rightarrow> bool" where
  "isClaimStale alive reg claim =
     (if \<not> alive (ClaimEntry.pid claim) then True
      else case reg (agent claim) of
             None \<Rightarrow> True
           | Some Malformed \<Rightarrow> True
           | Some (Parsed r) \<Rightarrow>
               if \<not> alive (AgentRegistration.pid r) then True
               else if AgentRegistration.sessionId r \<noteq> ClaimEntry.sessionId claim then True
               else False)"

text \<open>
  The inner loop of \<open>cleanupStaleClaims\<close> runs over the entries the bucket had when the
  loop began and deletes from the bucket itself.
\<close>

definition cleanupTasks :: "(ClaimEntry \<Rightarrow> bool) \<Rightarrow> SpecClaims \<Rightarrow> SpecClaims \<times> nat" where
  "cleanupTasks stale tasks =
     fold (\<lambda>(taskId, claim) (ts, removed).
             if stale claim then (AList.delete taskId ts, removed + 1) else (ts, removed))
       tasks (tasks, 0)"

text \<open>
  \<open>cleanupStaleClaims\<close> changes its argument in place and returns the number removed;
  here it returns both. The bucket of a spec is the object the map holds, so its
  deletions show in the map.
\<close>

definition cleanupStaleClaims :: "(ClaimEntry \<Rightarrow> bool) \<Rightarrow> AllClaims \<Rightarrow> AllClaims \<times> nat" where
  "cleanupStaleClaims stale claims =
     fold (\<lambda>(spc, tasks) (cs, removed).
             case cleanupTasks stale tasks of
               (tasks', n) \<Rightarrow>
                 (if length tasks' = 0 then AList.delete spc (AList.update spc tasks' cs)
                  else AList.update spc tasks' cs,
                  removed + n))
       claims (claims, 0)"

definition filterTasks :: "(ClaimEntry \<Rightarrow> bool) \<Rightarrow> SpecClaims \<Rightarrow> SpecClaims" where
  "filterTasks stale tasks =
     fold (\<lambda>(taskId, claim) filteredTasks.
             if \<not> stale claim then obj_set taskId claim filteredTasks else filteredTasks)
       tasks []"

definition filterStaleClaims :: "(ClaimEntry \<Rightarrow> bool) \<Rightarrow> AllClaims \<Rightarrow> AllClaims" where
  "filterStaleClaims stale claims =
     fold (\<lambda>(spc, tasks) filtered.
             let filteredTasks = filterTasks stale tasks
             in if length filteredTasks > 0 then obj_set spc filteredTasks filtered else filtered)
       claims []"

fun findTaskOf :: "string \<Rightarrow> SpecClaims \<Rightarrow> string option" where
  "findTaskOf a [] = None"
| "findTaskOf a ((taskId, claim) # rest) =
     (if agent claim = a then Some taskId else findTaskOf a rest)"

fun findAgentClaim :: "AllClaims \<Rightarrow> string \<Rightarrow> (string \<times> string) option" where
  "findAgentClaim [] a = None"
| "findAgentClaim ((spc, tasks) # rest) a =
     (case findTaskOf a tasks of
        Some taskId \<Rightarrow> Some (spc, taskId)
      | None \<Rightarrow> findAgentClaim rest a)"


text \<open>\<open>o[a]?.[b]\<close> as a read of own properties, which it is for keys that are
  \<open>plain_key\<close>, and the two nested updates the operations make.\<close>

definition get2 :: "'v obj obj \<Rightarrow> string \<Rightarrow> string \<Rightarrow> 'v option" where
  "get2 ob a b = (case map_of ob a of None \<Rightarrow> None | Some inner \<Rightarrow> map_of inner b)"

text \<open>\<open>if (!o[a]) o[a] = {}; o[a][b] = v\<close>\<close>

definition set2 :: "string \<Rightarrow> string \<Rightarrow> 'v \<Rightarrow> 'v obj obj \<Rightarrow> 'v obj obj" where
  "set2 a b v ob =
     (case map_of ob a of
        None \<Rightarrow> obj_set a (obj_set b v []) ob
      | Some inner \<Rightarrow> obj_set a (obj_set b v inner) ob)"

text \<open>\<open>delete o[a][b]; if (Object.keys(o[a]).length === 0) delete o[a]\<close>, reached
  only where \<open>o[a][b]\<close> was read before.\<close>

definition delete2 :: "string \<Rightarrow> string \<Rightarrow> 'v obj obj \<Rightarrow> 'v obj obj" where
  "delete2 a b ob =
     (case map_of ob a of
        None \<Rightarrow> ob
      | Some inner \<Rightarrow>
          (let inner' = AList.delete b inner
           in if length inner' = 0 then AList.delete a ob else AList.update a inner' ob))"

datatype ClaimResult =
    claim_success string
  | already_claimed ClaimEntry
  | already_have_claim string string

datatype UnclaimResult =
    unclaim_success
  | unclaim_not_claimed
  | unclaim_not_your_claim string

datatype CompleteResult =
    complete_success string
  | complete_not_claimed
  | complete_not_your_claim string
  | already_completed CompletionEntry

text \<open>\<open>if (removed > 0) writeClaimsSync(dirs, claims); return r\<close>\<close>

definition writeIfRemoved :: "sys \<Rightarrow> nat \<Rightarrow> AllClaims \<Rightarrow> 'a \<Rightarrow> fs \<Rightarrow> (exn + 'a) \<times> fs" where
  "writeIfRemoved s removed claims r f =
     (if removed > 0 then
        (case writeClaimsSync s claims f of
           (Inl e, f') \<Rightarrow> (Inl e, f')
         | (Inr _, f') \<Rightarrow> (Inr r, f'))
      else (Inr r, f))"

text \<open>
  The function \<open>claimTask\<close> runs under the lock. \<open>now\<close> is
  \<open>new Date().toISOString()\<close>.
\<close>

definition claimTask_locked ::
  "sys \<Rightarrow> string \<Rightarrow> string \<Rightarrow> string \<Rightarrow> string \<Rightarrow> int \<Rightarrow> string option \<Rightarrow> string \<Rightarrow> fs
     \<Rightarrow> (exn + ClaimResult) \<times> fs" where
  "claimTask_locked s specPath taskId agnt sessId p rsn now f =
     (case cleanupStaleClaims (isClaimStale (isProcessAlive s) (registry f)) (readClaimsSync f) of
        (claims, removed) \<Rightarrow>
          (case findAgentClaim claims agnt of
             Some (espec, etask) \<Rightarrow>
               writeIfRemoved s removed claims (already_have_claim espec etask) f
           | None \<Rightarrow>
               (case get2 claims specPath taskId of
                  Some existingClaim \<Rightarrow>
                    writeIfRemoved s removed claims (already_claimed existingClaim) f
                | None \<Rightarrow>
                    (let newClaim = \<lparr>agent = agnt, sessionId = sessId, pid = p,
                                      claimedAt = now, reason = rsn\<rparr>
                     in case writeClaimsSync s (set2 specPath taskId newClaim claims) f of
                          (Inl e, f') \<Rightarrow> (Inl e, f')
                        | (Inr _, f') \<Rightarrow> (Inr (claim_success (claimedAt newClaim)), f')))))"

definition claimTask ::
  "sys \<Rightarrow> string \<Rightarrow> string \<Rightarrow> string \<Rightarrow> string \<Rightarrow> int \<Rightarrow> string option \<Rightarrow> string \<Rightarrow> fs
     \<Rightarrow> (exn + ClaimResult) \<times> fs" where
  "claimTask s specPath taskId agnt sessId p rsn now =
     withSwarmLock s (claimTask_locked s specPath taskId agnt sessId p rsn now)"

definition unclaimTask_locked ::
  "sys \<Rightarrow> string \<Rightarrow> string \<Rightarrow> string \<Rightarrow> fs \<Rightarrow> (exn + UnclaimResult) \<times> fs" where
  "unclaimTask_locked s specPath taskId agnt f =
     (case cleanupStaleClaims (isClaimStale (isProcessAlive s) (registry f)) (readClaimsSync f) of
        (claims, removed) \<Rightarrow>
          (case get2 claims specPath taskId of
             None \<Rightarrow> writeIfRemoved s removed claims unclaim_not_claimed f
           | Some claim \<Rightarrow>
               if agent claim \<noteq> agnt
               then writeIfRemoved s removed claims (unclaim_not_your_claim (agent claim)) f
               else (case writeClaimsSync s (delete2 specPath taskId claims) f of
                       (Inl e, f') \<Rightarrow> (Inl e, f')
                     | (Inr _, f') \<Rightarrow> (Inr unclaim_success, f'))))"

definition unclaimTask ::
  "sys \<Rightarrow> string \<Rightarrow> string \<Rightarrow> string \<Rightarrow> fs \<Rightarrow> (exn + UnclaimResult) \<times> fs" where
  "unclaimTask s specPath taskId agnt = withSwarmLock s (unclaimTask_locked s specPath taskId agnt)"

definition completeTask_locked ::
  "sys \<Rightarrow> string \<Rightarrow> string \<Rightarrow> string \<Rightarrow> string option \<Rightarrow> string \<Rightarrow> fs
     \<Rightarrow> (exn + CompleteResult) \<times> fs" where
  "completeTask_locked s specPath taskId agnt nts now f =
     (let completions = readCompletionsSync f
      in case cleanupStaleClaims (isClaimStale (isProcessAlive s) (registry f)) (readClaimsSync f) of
        (claims, removed) \<Rightarrow>
          (case get2 completions specPath taskId of
             Some existingCompletion \<Rightarrow>
               writeIfRemoved s removed claims (already_completed existingCompletion) f
           | None \<Rightarrow>
               (case get2 claims specPath taskId of
                  None \<Rightarrow> writeIfRemoved s removed claims complete_not_claimed f
                | Some claim \<Rightarrow>
                    if agent claim \<noteq> agnt
                    then writeIfRemoved s removed claims (complete_not_your_claim (agent claim)) f
                    else
                      (let claims' = delete2 specPath taskId claims;
                           completion = \<lparr>completedBy = agnt, completedAt = now,
                                          completion_notes = nts\<rparr>;
                           completions' = set2 specPath taskId completion completions
                       in case writeCompletionsSync s completions' f of
                            (Inl e, f') \<Rightarrow> (Inl e, f')
                          | (Inr _, f') \<Rightarrow>
                              (case writeClaimsSync s claims' f' of
                                 (Inl e, f'') \<Rightarrow> (Inl e, f'')
                               | (Inr _, f'') \<Rightarrow>
                                   (Inr (complete_success (completedAt completion)), f''))))))"

definition completeTask ::
  "sys \<Rightarrow> string \<Rightarrow> string \<Rightarrow> string \<Rightarrow> string option \<Rightarrow> string \<Rightarrow> fs
     \<Rightarrow> (exn + CompleteResult) \<times> fs" where
  "completeTask s specPath taskId agnt nts now =
     withSwarmLock s (completeTask_locked s specPath taskId agnt nts now)"

subsection \<open>What the purge computes\<close>

text \<open>
  The entries of a bucket that are not stale, and the map without the stale entries
  and without the buckets left empty: the loops of \<open>cleanupStaleClaims\<close> and
  \<open>filterStaleClaims\<close> are compared with these.
\<close>

definition keep_fresh :: "(ClaimEntry \<Rightarrow> bool) \<Rightarrow> SpecClaims \<Rightarrow> SpecClaims" where
  "keep_fresh stale tasks = filter (\<lambda>(taskId, claim). \<not> stale claim) tasks"

definition purge :: "(ClaimEntry \<Rightarrow> bool) \<Rightarrow> AllClaims \<Rightarrow> AllClaims" where
  "purge stale claims =
     filter (\<lambda>(spc, tasks). tasks \<noteq> [])
       (map (\<lambda>(spc, tasks). (spc, keep_fresh stale tasks)) claims)"

definition stale_key :: "('v \<Rightarrow> bool) \<Rightarrow> 'v obj \<Rightarrow> string \<Rightarrow> bool" where
  "stale_key stale xs k = (\<exists>c. (k, c) \<in> set xs \<and> stale c)"

definition purge_entry ::
  "(ClaimEntry \<Rightarrow> bool) \<Rightarrow> AllClaims \<Rightarrow> string \<times> SpecClaims \<Rightarrow> (string \<times> SpecClaims) list" where
  "purge_entry stale xs e =
     (case map_of xs (fst e) of
        None \<Rightarrow> [e]
      | Some t \<Rightarrow> if keep_fresh stale t = [] then [] else [(fst e, keep_fresh stale t)])"

definition stale_count :: "(ClaimEntry \<Rightarrow> bool) \<Rightarrow> AllClaims \<Rightarrow> nat" where
  "stale_count stale claims =
     sum_list (map (\<lambda>(spc, tasks). length (filter (\<lambda>(k, c). stale c) tasks)) claims)"

definition inner_distinct :: "'v obj obj \<Rightarrow> bool" where
  "inner_distinct claims = (\<forall>e \<in> set claims. distinct (map fst (snd e)))"

text \<open>A map of buckets as the program writes it: every object in the order of its
  keys, and neither a spec nor a task under the key \<open>__proto__\<close>.\<close>

definition wf_claims :: "'v obj obj \<Rightarrow> bool" where
  "wf_claims claims = (js_ordered claims \<and> (\<forall>e \<in> set claims. js_ordered (snd e)))"

definition distinct_keys :: "'v obj obj \<Rightarrow> bool" where
  "distinct_keys claims = (distinct (map fst claims) \<and> inner_distinct claims)"

subsection \<open>Claims an agent holds, and sequences of calls\<close>

text \<open>The places of the entries of a claims map that name an agent, in the order of
  the loops of \<open>findAgentClaim\<close> and \<open>getAgentCurrentClaim\<close>.\<close>

definition heldBy :: "string \<Rightarrow> AllClaims \<Rightarrow> (string \<times> string) list" where
  "heldBy a claims =
     concat (map (\<lambda>(spc, tasks).
                    map (\<lambda>(taskId, c). (spc, taskId)) (filter (\<lambda>(taskId, c). agent c = a) tasks))
                 claims)"

text \<open>The claims of \<open>claims.json\<close> that name the agent and are not stale.\<close>

definition nonStaleClaimsOf :: "(int \<Rightarrow> bool) \<Rightarrow> fs \<Rightarrow> string \<Rightarrow> (string \<times> string) list" where
  "nonStaleClaimsOf alive f a =
     concat (map (\<lambda>(spc, tasks).
                    map (\<lambda>(taskId, c). (spc, taskId))
                      (filter (\<lambda>(taskId, c). agent c = a \<and> \<not> isClaimStale alive (registry f) c) tasks))
                 (readClaimsSync f))"

datatype swarm_call =
    ClaimCall string string string string int "string option" string
  | UnclaimCall string string string
  | CompleteCall string string string "string option" string

fun swarm_step :: "sys \<Rightarrow> swarm_call \<Rightarrow> fs \<Rightarrow> fs" where
  "swarm_step s (ClaimCall specPath taskId agnt sessId p rsn now) f =
     snd (claimTask s specPath taskId agnt sessId p rsn now f)"
| "swarm_step s (UnclaimCall specPath taskId agnt) f =
     snd (unclaimTask s specPath taskId agnt f)"
| "swarm_step s (CompleteCall specPath taskId agnt nts now) f =
     snd (completeTask s specPath taskId agnt nts now f)"

text \<open>Calls one after the other, each with the answers the system gives to it.\<close>

definition run_calls :: "(sys \<times> swarm_call) list \<Rightarrow> fs \<Rightarrow> fs" where
  "run_calls calls f = fold (\<lambda>(s, c). swarm_step s c) calls f"

subsection \<open>The single-claim invariant\<close>

text \<open>The entries of one bucket that name an agent.\<close>

definition bucket_count :: "string \<Rightarrow> string \<times> SpecClaims \<Rightarrow> nat" where
  "bucket_count a e = length (filter (\<lambda>(taskId, c). agent c = a) (snd e))"

text \<open>No key twice, and after the purge at most one claim of the agent.\<close>

definition single_claim :: "(ClaimEntry \<Rightarrow> bool) \<Rightarrow> string \<Rightarrow> AllClaims \<Rightarrow> bool" where
  "single_claim stale a claims = (distinct_keys claims \<and> length (heldBy a (purge stale claims)) \<le> 1)"

text \<open>What a locked operation leaves in the directory: the registry as it was, and
  the invariant if it held.\<close>

definition claims_moved :: "(ClaimEntry \<Rightarrow> bool) \<Rightarrow> string \<Rightarrow> fs \<Rightarrow> fs \<Rightarrow> bool" where
  "claims_moved stale a f f' =
     (registry f' = registry f \<and>
      (single_claim stale a (readClaimsSync f) \<longrightarrow> single_claim stale a (readClaimsSync f')))"

section \<open>Registry and inbox\<close>

text \<open>
  The part of \<open>MessengerState\<close> that the operations below read or write.
\<close>

record MessengerState =
  registered :: bool
  agentName :: string
  reservations :: "(string \<times> string) list"
  spec :: "string option"
  isHuman :: bool
  session :: session_stats
  lastActivityAt :: string
  statusMessage :: "string option"
  model :: string
  gitBranch :: "string option"
  sessionStartedAt :: string

text \<open>
  The module's own variables: the guard of message processing, the call that came
  while a pass was running (\<open>pendingProcessArgs\<close> is not null; a nested call comes from
  the delivery callback, with the arguments of the running call), and whether the
  agents cache is set.
\<close>

record module_vars =
  isProcessingMessages :: bool
  pendingProcessArgs :: bool
  agentsCache :: bool

text \<open>What the operations do to the directory and to the caller, in order.\<close>

datatype io_event =
    ReadMessage string string
  | Deliver AgentMailMessage
  | UnlinkMessage string string
  | WriteRegistration string
  | UnlinkRegistration string
  | Mkdir string
  | Rmdir string

record world =
  disk :: fs
  vars :: module_vars
  trace :: "io_event list"

definition endsWith :: "string \<Rightarrow> string \<Rightarrow> bool" where
  "endsWith s suf = (length suf \<le> length s \<and> drop (length s - length suf) s = suf)"

subsection \<open>Names\<close>

text \<open>
  \<open>findAvailableName\<close>: the base name is free when it has no record, when the record
  does not parse, when its process is dead or is the caller's own; a numbered name
  \<open>base2\<close> .. \<open>base99\<close> is free when it has no record, when the record does not parse,
  or when its process is dead.
\<close>

function probeFrom ::
  "(int \<Rightarrow> bool) \<Rightarrow> (string \<rightharpoonup> AgentRegistration json_file) \<Rightarrow> string \<Rightarrow> nat \<Rightarrow> string option" where
  "probeFrom alive reg baseName i =
     (if i \<le> 99 then
        (let altName = baseName @ String_nat i
         in case reg altName of
              None \<Rightarrow> Some altName
            | Some Malformed \<Rightarrow> Some altName
            | Some (Parsed altReg) \<Rightarrow>
                if \<not> alive (AgentRegistration.pid altReg) then Some altName
                else probeFrom alive reg baseName (i + 1))
      else None)"
  by pat_completeness auto
termination
  by (relation "measure (\<lambda>(alive, reg, baseName, i). 100 - i)") auto

declare probeFrom.simps [simp del]

definition findAvailableName ::
  "(int \<Rightarrow> bool) \<Rightarrow> int \<Rightarrow> (string \<rightharpoonup> AgentRegistration json_file) \<Rightarrow> string \<Rightarrow> string option" where
  "findAvailableName alive mypid reg baseName =
     (case reg baseName of
        None \<Rightarrow> Some baseName
      | Some Malformed \<Rightarrow> Some baseName
      | Some (Parsed existing) \<Rightarrow>
          if \<not> alive (AgentRegistration.pid existing) \<or> AgentRegistration.pid existing = mypid
          then Some baseName
          else probeFrom alive reg baseName 2)"

subsection \<open>Messages\<close>


definition unlinkMessage :: "string \<Rightarrow> string \<Rightarrow> world \<Rightarrow> world" where
  "unlinkMessage ib file w =
     w\<lparr>disk := (disk w)\<lparr>inbox := (inbox (disk w))
            (ib := map_option (AList.delete file) (inbox (disk w) ib))\<rparr>,
       trace := trace w @ [UnlinkMessage ib file]\<rparr>"


definition listMessages :: "(string \<times> inbox_file) list \<Rightarrow> string list" where
  "listMessages dir = sort (filter (\<lambda>f. endsWith f ''.json'') (map fst dir))"


definition jsonFilesLeft :: "MessengerState \<Rightarrow> world \<Rightarrow> nat" where
  "jsonFilesLeft state w =
     (case inbox (disk w) (agentName state) of None \<Rightarrow> 0 | Some dir \<Rightarrow> length (listMessages dir))"


lemma unlinkMessage_fields [simp]:
  "vars (unlinkMessage ib file w) = vars w"
  "inbox (disk (unlinkMessage ib file w)) = (inbox (disk w))(ib := map_option (AList.delete file) (inbox (disk w) ib))"
  "registry (disk (unlinkMessage ib file w)) = registry (disk w)"
  "trace (unlinkMessage ib file w) = trace w @ [UnlinkMessage ib file]"
  by (simp_all add: unlinkMessage_def)









lemma jsonFilesLeft_vars [simp]: "jsonFilesLeft state (w\<lparr>vars := v\<rparr>) = jsonFilesLeft state w"
  by (simp add: jsonFilesLeft_def)




subsection \<open>Sending and validating\<close>












subsection \<open>Renaming\<close>










subsection \<open>The events of a processing pass\<close>



subsection \<open>Notions for the rename protocol\<close>







section \<open>Regular expressions of verdict.ts\<close>

text \<open>
  The regular expressions of \<open>parseVerdict\<close> are sequences of the following items. The
  character classes are \<open>\s\<close>, \<open>.\<close> (anything but a line terminator, the \<open>s\<close> flag
  being absent), \<open>[\s\S]\<close> and \<open>[\s\-*]\<close>; \<open>Open\<close> and \<open>Close\<close> are the parentheses of
  the one capturing group; \<open>Ahead\<close> is a lookahead \<open>(?=...|...)\<close> whose alternatives are
  literals or \<open>$\<close> (end of input, the \<open>m\<close> flag being absent).
\<close>

datatype cls = Ws | Dot | AnyChar | WsDashStar

fun inClass :: "cls \<Rightarrow> nat \<Rightarrow> bool" where
  "inClass Ws c = isWhiteSpace c"
| "inClass Dot c = (c \<noteq> 10 \<and> c \<noteq> 13 \<and> c \<noteq> 8232 \<and> c \<noteq> 8233)"
| "inClass AnyChar c = True"
| "inClass WsDashStar c = (isWhiteSpace c \<or> c = 45 \<or> c = 42)"

datatype look = LookLit jsstring | LookEnd

datatype node =
    Lit jsstring
  | Star cls
  | LazyStar cls
  | Plus cls
  | Opt jsstring
  | AltLit "jsstring list"
  | Open
  | Close
  | Ahead "look list"

text \<open>
  Canonicalize of ECMAScript for a pattern without the \<open>u\<close> flag: under \<open>i\<close> a code
  unit is compared by its upper case, except that a code unit from 128 on is never
  mapped below 128. All literals of the patterns are ASCII, so the comparison with them
  is the comparison up to the case of the letters \<open>a\<close> to \<open>z\<close>.
\<close>

definition canon :: "bool \<Rightarrow> nat \<Rightarrow> nat" where
  "canon ic c = (if ic \<and> 97 \<le> c \<and> c \<le> 122 then c - 32 else c)"

definition litAt :: "bool \<Rightarrow> jsstring \<Rightarrow> jsstring \<Rightarrow> bool" where
  "litAt ic l rest =
     (length l \<le> length rest \<and> map (canon ic) (take (length l) rest) = map (canon ic) l)"

fun lookAt :: "bool \<Rightarrow> jsstring \<Rightarrow> look \<Rightarrow> bool" where
  "lookAt ic rest (LookLit l) = litAt ic l rest"
| "lookAt ic rest LookEnd = (rest = [])"

fun weight :: "node list \<Rightarrow> nat" where
  "weight [] = 0"
| "weight (AltLit ls # ns) = Suc (length ls) + weight ns"
| "weight (n # ns) = Suc (weight ns)"

text \<open>
  The backtracking matcher: \<open>run ic ns rest i st cap\<close> matches the items \<open>ns\<close> against
  \<open>rest\<close>, the input from position \<open>i\<close> on, and answers the end position of the first
  match in the order of priority (a greedy item takes before it gives up, a lazy one
  gives up before it takes, the alternatives are tried from the left), with the
  positions of the capture. \<open>st\<close> is where the group was opened.
\<close>

function run ::
  "bool \<Rightarrow> node list \<Rightarrow> jsstring \<Rightarrow> nat \<Rightarrow> nat \<Rightarrow> (nat \<times> nat) option
     \<Rightarrow> (nat \<times> (nat \<times> nat) option) option" where
  "run ic [] rest i st cap = Some (i, cap)"
| "run ic (Lit l # ns) rest i st cap =
     (if litAt ic l rest then run ic ns (drop (length l) rest) (i + length l) st cap else None)"
| "run ic (Star c # ns) rest i st cap =
     (case rest of
        [] \<Rightarrow> run ic ns rest i st cap
      | x # xs \<Rightarrow>
          if inClass c x
          then (case run ic (Star c # ns) xs (i + 1) st cap of
                  Some r \<Rightarrow> Some r
                | None \<Rightarrow> run ic ns rest i st cap)
          else run ic ns rest i st cap)"
| "run ic (LazyStar c # ns) rest i st cap =
     (case run ic ns rest i st cap of
        Some r \<Rightarrow> Some r
      | None \<Rightarrow>
          (case rest of
             [] \<Rightarrow> None
           | x # xs \<Rightarrow> if inClass c x then run ic (LazyStar c # ns) xs (i + 1) st cap else None))"
| "run ic (Plus c # ns) rest i st cap =
     (case rest of
        [] \<Rightarrow> None
      | x # xs \<Rightarrow> if inClass c x then run ic (Star c # ns) xs (i + 1) st cap else None)"
| "run ic (Opt l # ns) rest i st cap =
     (if litAt ic l rest
      then (case run ic ns (drop (length l) rest) (i + length l) st cap of
              Some r \<Rightarrow> Some r
            | None \<Rightarrow> run ic ns rest i st cap)
      else run ic ns rest i st cap)"
| "run ic (AltLit [] # ns) rest i st cap = None"
| "run ic (AltLit (l # ls) # ns) rest i st cap =
     (case (if litAt ic l rest
            then run ic ns (drop (length l) rest) (i + length l) st cap else None) of
        Some r \<Rightarrow> Some r
      | None \<Rightarrow> run ic (AltLit ls # ns) rest i st cap)"
| "run ic (Open # ns) rest i st cap = run ic ns rest i i cap"
| "run ic (Close # ns) rest i st cap = run ic ns rest i st (Some (st, i))"
| "run ic (Ahead looks # ns) rest i st cap =
     (if list_ex (lookAt ic rest) looks then run ic ns rest i st cap else None)"
  by pat_completeness auto

termination
  by (relation "measures [\<lambda>(ic, ns, rest, i, st, cap). length rest,
                          \<lambda>(ic, ns, rest, i, st, cap). weight ns]") auto





section \<open>The review verdict parser\<close>














subsection \<open>What the patterns accept\<close>

text \<open>
  The inputs of which a pattern matches a prefix, item by item: a literal is a piece
  equal to it up to case, a starred class a piece of characters of the class, and so
  on. The order of priority plays no part in whether there is a match.
\<close>

fun accepts :: "bool \<Rightarrow> node list \<Rightarrow> jsstring \<Rightarrow> bool" where
  "accepts ic [] rest = True"
| "accepts ic (Lit l # ns) rest =
     (\<exists>h r. rest = h @ r \<and> map (canon ic) h = map (canon ic) l \<and> accepts ic ns r)"
| "accepts ic (Star c # ns) rest =
     (\<exists>w r. rest = w @ r \<and> list_all (inClass c) w \<and> accepts ic ns r)"
| "accepts ic (LazyStar c # ns) rest =
     (\<exists>w r. rest = w @ r \<and> list_all (inClass c) w \<and> accepts ic ns r)"
| "accepts ic (Plus c # ns) rest =
     (\<exists>w r. rest = w @ r \<and> w \<noteq> [] \<and> list_all (inClass c) w \<and> accepts ic ns r)"
| "accepts ic (Opt l # ns) rest =
     (accepts ic ns rest
      \<or> (\<exists>h r. rest = h @ r \<and> map (canon ic) h = map (canon ic) l \<and> accepts ic ns r))"
| "accepts ic (AltLit ls # ns) rest =
     (\<exists>l h r. l \<in> set ls \<and> rest = h @ r \<and> map (canon ic) h = map (canon ic) l \<and> accepts ic ns r)"
| "accepts ic (Open # ns) rest = accepts ic ns rest"
| "accepts ic (Close # ns) rest = accepts ic ns rest"
| "accepts ic (Ahead looks # ns) rest = (list_ex (lookAt ic rest) looks \<and> accepts ic ns rest)"





section \<open>Example states\<close>

definition ex_session :: session_stats where
  "ex_session = \<lparr>toolCalls = 0, tokens = 0, filesModified = []\<rparr>"

definition ex_reg :: "string \<Rightarrow> int \<Rightarrow> string \<Rightarrow> AgentRegistration" where
  "ex_reg n p sid =
     \<lparr>name = n, pid = p, sessionId = sid, cwd = ''/work'', model = ''m1'',
      startedAt = ''2026-01-20T10:00:00.000Z'', reservations = None, gitBranch = None,
      spec = None, isHuman = False, session = ex_session,
      lastActivityAt = ''2026-01-20T10:00:00.000Z'', statusMessage = None\<rparr>"

text \<open>Alpha (process 100) and Gamma (process 102) are registered and alive; Beta's
  process 101 is dead.\<close>

definition ex_alive :: "int \<Rightarrow> bool" where
  "ex_alive p = (p = 100 \<or> p = 102)"

definition ex_registry :: "string \<rightharpoonup> AgentRegistration json_file" where
  "ex_registry =
     [''Alpha'' \<mapsto> Parsed (ex_reg ''Alpha'' 100 ''s1''),
      ''Gamma'' \<mapsto> Parsed (ex_reg ''Gamma'' 102 ''s3'')]"

definition ex_claimA :: ClaimEntry where
  "ex_claimA = \<lparr>agent = ''Alpha'', sessionId = ''s1'', pid = 100,
                claimedAt = ''2026-01-20T10:01:00.000Z'', reason = None\<rparr>"

definition ex_claimB :: ClaimEntry where
  "ex_claimB = \<lparr>agent = ''Beta'', sessionId = ''s2'', pid = 101,
                claimedAt = ''2026-01-20T10:02:00.000Z'', reason = None\<rparr>"

definition ex_claims :: AllClaims where
  "ex_claims =
     [(''spec.md'', [(''T-1'', ex_claimB), (''T-2'', ex_claimA)]),
      (''other.md'', [(''7'', ex_claimB)])]"

text \<open>A system where the lock is free to take and no write fails.\<close>

definition ex_sys :: "int \<Rightarrow> sys" where
  "ex_sys p =
     \<lparr>isProcessAlive = ex_alive, process_pid = p,
      date_now = (\<lambda>i. 1768903200000 + 100 * int i),
      lock_interference = (\<lambda>i lk. lk), open_errno = (\<lambda>i. None),
      write_error = (\<lambda>n. None)\<rparr>"

definition ex_fs :: "AllClaims \<Rightarrow> AllCompletions \<Rightarrow> fs" where
  "ex_fs claims completions =
     \<lparr>swarm_lock = None, claims_json = Some (Parsed claims),
      completions_json = Some (Parsed completions),
      registry = ex_registry, inbox = Map.empty\<rparr>"

definition ex_completion :: CompletionEntry where
  "ex_completion = \<lparr>completedBy = ''Alpha'', completedAt = ''2026-01-20T10:30:00.000Z'',
                     completion_notes = Some ''work done''\<rparr>"

definition ex_done :: fs where
  "ex_done = ex_fs [] [(''spec.md'', [(''T-7'', ex_completion)])]"

definition ex_claimG :: ClaimEntry where
  "ex_claimG = \<lparr>agent = ''Gamma'', sessionId = ''s3'', pid = 102,
                claimedAt = ''2026-01-20T10:03:00.000Z'', reason = None\<rparr>"

definition ex_calls :: "(sys \<times> swarm_call) list" where
  "ex_calls =
     [(ex_sys 100, ClaimCall ''spec.md'' ''T-2'' ''Alpha'' ''s1'' 100 None ''2026-01-20T10:01:00.000Z''),
      (ex_sys 102, ClaimCall ''spec.md'' ''T-3'' ''Gamma'' ''s3'' 102 None ''2026-01-20T10:03:00.000Z''),
      (ex_sys 100, ClaimCall ''spec.md'' ''T-4'' ''Alpha'' ''s1'' 100 None ''2026-01-20T10:04:00.000Z'')]"




text \<open>Locks: Gamma's (alive), Beta's (dead, 20 s old), and an empty one, 20 s old.\<close>

definition ex_lock_gamma :: lockfile where
  "ex_lock_gamma = \<lparr>mtimeMs = 1768903199000, content = Some (js ''102'')\<rparr>"

definition ex_lock_beta :: lockfile where
  "ex_lock_beta = \<lparr>mtimeMs = 1768903180000, content = Some (js ''101'')\<rparr>"

definition ex_lock_empty :: lockfile where
  "ex_lock_empty = \<lparr>mtimeMs = 1768903180000, content = Some []\<rparr>"

subsection \<open>Example inbox, names and registry\<close>






definition ex_swift :: "string \<rightharpoonup> AgentRegistration json_file" where
  "ex_swift =
     [''Swift'' \<mapsto> Parsed (ex_reg ''Swift'' 100 ''s1''),
      ''Swift2'' \<mapsto> Parsed (ex_reg ''Swift2'' 102 ''s3'')]"




subsection \<open>Example rename surroundings\<close>




subsection \<open>Example reviewer outputs\<close>




section \<open>Properties of the advisory lock\<close>

lemma removeStaleLock_char:
  "removeStaleLock alive now (Some l)
   = (if now - mtimeMs l > LOCK_STALE_MS \<and> (spec_pid_dead alive l \<or> no_pid l) then None else Some l)"
  by (auto simp: removeStaleLock_def spec_pid_dead_def no_pid_def split: option.splits)

lemma opens_simps [simp]:
  "opens [] = 0" "opens (evs @ evs') = opens evs + opens evs'"
  "opens (OpenExcl # evs) = Suc (opens evs)" "opens (UnlinkStale # evs) = opens evs"
  "opens (Sleep d # evs) = opens evs"
  by (simp_all add: opens_def)

lemma sleeps_simps [simp]:
  "sleeps [] = []" "sleeps (evs @ evs') = sleeps evs @ sleeps evs'"
  "sleeps (OpenExcl # evs) = sleeps evs" "sleeps (UnlinkStale # evs) = sleeps evs"
  "sleeps (Sleep d # evs) = Sleep d # sleeps evs"
  by (simp_all add: sleeps_def)

lemma acquire_unfold:
  "i < maxRetries \<Longrightarrow>
   acquire s i lk evs
   = (case open_result s i lk of
        None \<Rightarrow>
          \<lparr>outcome = Inr (),
           lock_left = Some \<lparr>mtimeMs = date_now s i, content = Some (String_int (process_pid s))\<rparr>,
           events = evs @ attempt_events s i lk\<rparr>
      | Some code \<Rightarrow>
          if code = ''EEXIST'' then
            (if i = maxRetries - 1
             then \<lparr>outcome = Inl (Error ''Failed to acquire swarm lock''),
                   lock_left = seen_lock s i lk, events = evs @ attempt_events s i lk\<rparr>
             else acquire s (i + 1) (seen_lock s i lk)
                    ((evs @ attempt_events s i lk) @ [Sleep retryDelay]))
          else \<lparr>outcome = Inl (ErrnoException code), lock_left = seen_lock s i lk,
                events = evs @ attempt_events s i lk\<rparr>)"
  by (subst acquire.simps)
     (simp only: if_P Let_def seen_lock_def open_result_def attempt_events_def append_assoc)

lemma acquire_retry:
  "i < maxRetries \<Longrightarrow> open_result s i lk = Some ''EEXIST'' \<Longrightarrow> i \<noteq> maxRetries - 1 \<Longrightarrow>
   acquire s i lk evs
   = acquire s (i + 1) (seen_lock s i lk) ((evs @ attempt_events s i lk) @ [Sleep retryDelay])"
  by (subst acquire_unfold) simp_all

lemma acquire_exhausted:
  "i < maxRetries \<Longrightarrow> open_result s i lk = Some ''EEXIST'' \<Longrightarrow> i = maxRetries - 1 \<Longrightarrow>
   acquire s i lk evs
   = \<lparr>outcome = Inl (Error ''Failed to acquire swarm lock''), lock_left = seen_lock s i lk,
      events = evs @ attempt_events s i lk\<rparr>"
  by (subst acquire_unfold) simp_all

lemma acquire_taken:
  "i < maxRetries \<Longrightarrow> open_result s i lk = None \<Longrightarrow>
   acquire s i lk evs
   = \<lparr>outcome = Inr (),
      lock_left = Some \<lparr>mtimeMs = date_now s i, content = Some (String_int (process_pid s))\<rparr>,
      events = evs @ attempt_events s i lk\<rparr>"
  by (subst acquire_unfold) simp_all

lemma acquire_errno:
  "i < maxRetries \<Longrightarrow> open_result s i lk = Some code \<Longrightarrow> code \<noteq> ''EEXIST'' \<Longrightarrow>
   acquire s i lk evs
   = \<lparr>outcome = Inl (ErrnoException code), lock_left = seen_lock s i lk,
      events = evs @ attempt_events s i lk\<rparr>"
  by (subst acquire_unfold) simp_all

lemma opens_attempt [simp]: "opens (attempt_events s i lk) = 1"
  by (simp add: attempt_events_def)

lemma sleeps_attempt [simp]: "sleeps (attempt_events s i lk) = []"
  by (simp add: attempt_events_def)

lemma acquire_events:
  "i < maxRetries \<Longrightarrow>
   \<exists>new. events (acquire s i lk evs) = evs @ new
      \<and> 1 \<le> opens new \<and> opens new \<le> maxRetries - i
      \<and> sleeps new = replicate (opens new - 1) (Sleep retryDelay)
      \<and> (outcome (acquire s i lk evs) = Inl (Error ''Failed to acquire swarm lock'')
            \<longrightarrow> opens new = maxRetries - i)"
proof (induction "maxRetries - i" arbitrary: i lk evs)
  case 0
  then show ?case by simp
next
  case (Suc n)
  consider (taken) "open_result s i lk = None"
    | (errno) code where "open_result s i lk = Some code" "code \<noteq> ''EEXIST''"
    | (last) "open_result s i lk = Some ''EEXIST''" "i = maxRetries - 1"
    | (retry) "open_result s i lk = Some ''EEXIST''" "i \<noteq> maxRetries - 1"
    by (cases "open_result s i lk") auto
  then show ?case
  proof cases
    case taken
    show ?thesis
      unfolding acquire_taken[OF Suc.prems taken]
      using Suc.prems by (intro exI[of _ "attempt_events s i lk"]) simp
  next
    case errno
    show ?thesis
      unfolding acquire_errno[OF Suc.prems errno]
      using Suc.prems by (intro exI[of _ "attempt_events s i lk"]) simp
  next
    case last
    show ?thesis
      unfolding acquire_exhausted[OF Suc.prems last]
      using Suc.prems last(2) by (intro exI[of _ "attempt_events s i lk"]) simp
  next
    case retry
    have i1: "i + 1 < maxRetries" using Suc.prems retry(2) by arith
    have n: "n = maxRetries - (i + 1)" using Suc.hyps(2) by arith
    let ?evs = "(evs @ attempt_events s i lk) @ [Sleep retryDelay]"
    let ?a = "acquire s (i + 1) (seen_lock s i lk) ?evs"
    from Suc.hyps(1)[OF n i1, of "seen_lock s i lk" ?evs]
    obtain new where new: "events ?a = ?evs @ new" "1 \<le> opens new" "opens new \<le> maxRetries - (i + 1)"
      "sleeps new = replicate (opens new - 1) (Sleep retryDelay)"
      "outcome ?a = Inl (Error ''Failed to acquire swarm lock'') \<longrightarrow> opens new = maxRetries - (i + 1)"
      by blast
    let ?new = "attempt_events s i lk @ [Sleep retryDelay] @ new"
    have e: "events ?a = evs @ ?new" using new(1) by simp
    have o: "opens ?new = Suc (opens new)" by simp
    have sl: "sleeps ?new = replicate (opens ?new - 1) (Sleep retryDelay)"
      using new(2,4) by (cases "opens new") simp_all
    have b: "1 \<le> opens ?new" "opens ?new \<le> maxRetries - i" using new(3) i1 by simp_all
    have "Suc (maxRetries - (i + 1)) = maxRetries - i" using i1 by arith
    then have f: "outcome ?a = Inl (Error ''Failed to acquire swarm lock'') \<longrightarrow> opens ?new = maxRetries - i"
      using new(5) by simp
    show ?thesis
      unfolding acquire_retry[OF Suc.prems retry]
      using e b sl f by blast
  qed
qed

lemma acquire_held:
  "i < maxRetries \<Longrightarrow> (\<forall>j. i \<le> j \<and> j < maxRetries \<longrightarrow> seen_lock s j (Some l) = Some l) \<Longrightarrow>
   outcome (acquire s i (Some l) evs) = Inl (Error ''Failed to acquire swarm lock'')
   \<and> lock_left (acquire s i (Some l) evs) = Some l"
proof (induction "maxRetries - i" arbitrary: i evs)
  case 0
  then show ?case by simp
next
  case (Suc n)
  have sl: "seen_lock s i (Some l) = Some l" using Suc.prems by simp
  then have r: "open_result s i (Some l) = Some ''EEXIST''" by (simp add: open_result_def)
  show ?case
  proof (cases "i = maxRetries - 1")
    case True
    show ?thesis unfolding acquire_exhausted[OF Suc.prems(1) r True] by (simp add: sl)
  next
    case False
    have i1: "i + 1 < maxRetries" using Suc.prems(1) False by arith
    have n: "n = maxRetries - (i + 1)" using Suc.hyps(2) by arith
    have all: "\<forall>j. i + 1 \<le> j \<and> j < maxRetries \<longrightarrow> seen_lock s j (Some l) = Some l"
      using Suc.prems(2) by simp
    show ?thesis
      unfolding acquire_retry[OF Suc.prems(1) r False] sl
      by (rule Suc.hyps(1)[OF n i1 all])
  qed
qed

text \<open>
  Claim C4, as amended. An iteration of \<open>withSwarmLock\<close> unlinks the lock file it finds
  exactly when the file's mtime is more than 10000 ms old and either the process id in
  it is dead or it yields no process id (it cannot be read, holds no number, or holds
  0); otherwise it leaves the file. A lock unlinked as stale is unlinked before the
  \<open>openSync\<close> of the same iteration, which then takes the lock. From the first
  iteration on there are at least one and at most 50 \<open>openSync\<close> attempts, with one
  wait of 100 ms between two attempts; the error "Failed to acquire swarm lock" comes
  only after 50 attempts; and when all 50 iterations find a lock that is not stale,
  the operation fails with that error and the function is not run.
\<close>

theorem swarm_lock_protocol:
  "removeStaleLock alive now (Some l)
     = (if now - mtimeMs l > 10000 \<and> (spec_pid_dead alive l \<or> no_pid l) then None else Some l)
   \<and> (i < 50 \<and> lock_interference s i lk = Some l
        \<and> removeStaleLock (isProcessAlive s) (date_now s i) (Some l) = None
        \<and> open_errno s i = None
      \<longrightarrow> acquire s i lk evs
          = \<lparr>outcome = Inr (),
             lock_left = Some \<lparr>mtimeMs = date_now s i,
                               content = Some (String_int (process_pid s))\<rparr>,
             events = evs @ [UnlinkStale, OpenExcl]\<rparr>)
   \<and> 1 \<le> opens (events (acquire s 0 lk []))
   \<and> opens (events (acquire s 0 lk [])) \<le> 50
   \<and> sleeps (events (acquire s 0 lk []))
       = replicate (opens (events (acquire s 0 lk [])) - 1) (Sleep 100)
   \<and> (outcome (acquire s 0 lk []) = Inl (Error ''Failed to acquire swarm lock'')
        \<longrightarrow> opens (events (acquire s 0 lk [])) = 50)
   \<and> ((\<forall>j < 50. seen_lock s j (Some l) = Some l)
        \<longrightarrow> withSwarmLock s fn (f\<lparr>swarm_lock := Some l\<rparr>)
            = (Inl (Error ''Failed to acquire swarm lock''), f\<lparr>swarm_lock := Some l\<rparr>))"
proof -
  have a: "removeStaleLock alive now (Some l)
     = (if now - mtimeMs l > 10000 \<and> (spec_pid_dead alive l \<or> no_pid l) then None else Some l)"
    using removeStaleLock_char[of alive now l] by (simp add: LOCK_STALE_MS_def)
  have b: "acquire s i lk evs
          = \<lparr>outcome = Inr (),
             lock_left = Some \<lparr>mtimeMs = date_now s i,
                               content = Some (String_int (process_pid s))\<rparr>,
             events = evs @ [UnlinkStale, OpenExcl]\<rparr>"
    if "i < 50" "lock_interference s i lk = Some l"
      "removeStaleLock (isProcessAlive s) (date_now s i) (Some l) = None" "open_errno s i = None"
  proof -
    have i: "i < maxRetries" using that(1) by (simp add: maxRetries_def)
    have sl: "seen_lock s i lk = None" using that(2,3) by (simp add: seen_lock_def)
    then have r: "open_result s i lk = None" using that(4) by (simp add: open_result_def)
    show ?thesis
      unfolding acquire_taken[OF i r] using that(2) sl by (simp add: attempt_events_def)
  qed
  have z: "0 < maxRetries" by (simp add: maxRetries_def)
  from acquire_events[OF z, of s lk "[]"]
  obtain new where new: "events (acquire s 0 lk []) = new" "1 \<le> opens new"
    "opens new \<le> maxRetries" "sleeps new = replicate (opens new - 1) (Sleep retryDelay)"
    "outcome (acquire s 0 lk []) = Inl (Error ''Failed to acquire swarm lock'') \<longrightarrow> opens new = maxRetries"
    by auto
  have c: "1 \<le> opens (events (acquire s 0 lk []))" "opens (events (acquire s 0 lk [])) \<le> 50"
    "sleeps (events (acquire s 0 lk []))
       = replicate (opens (events (acquire s 0 lk [])) - 1) (Sleep 100)"
    "outcome (acquire s 0 lk []) = Inl (Error ''Failed to acquire swarm lock'')
        \<longrightarrow> opens (events (acquire s 0 lk [])) = 50"
    using new by (simp_all add: maxRetries_def retryDelay_def)
  have d: "withSwarmLock s fn (f\<lparr>swarm_lock := Some l\<rparr>)
            = (Inl (Error ''Failed to acquire swarm lock''), f\<lparr>swarm_lock := Some l\<rparr>)"
    if "\<forall>j < 50. seen_lock s j (Some l) = Some l"
  proof -
    have "\<forall>j. 0 \<le> j \<and> j < maxRetries \<longrightarrow> seen_lock s j (Some l) = Some l"
      using that by (simp add: maxRetries_def)
    from acquire_held[OF z this, of "[]"]
    show ?thesis by (simp add: withSwarmLock_def Let_def)
  qed
  show ?thesis using a b c d by blast
qed

lemma ex_parse: "parseInt (trim (js ''102'')) = Some 102" "parseInt (trim (js ''101'')) = Some 101"
  "parseInt (trim []) = None"
  by (simp_all add: parseInt_def trim_def trimStart_def js_def isWhiteSpace_def isDigit_def digitsValue_def)

text \<open>
  Claim C4 as stated fails in "exactly when": a lock file 20 s old and empty (the
  state between \<open>openSync\<close> and \<open>writeSync\<close> of a holder that then died) contains no
  process id that is dead, and is unlinked.
\<close>

theorem swarm_lock_empty_file_counterexample:
  "removeStaleLock ex_alive 1768903200000 (Some ex_lock_empty) = None
   \<and> \<not> spec_lock_stale ex_alive 1768903200000 ex_lock_empty"
  by (simp add: removeStaleLock_def spec_lock_stale_def spec_pid_dead_def ex_lock_empty_def ex_parse
      LOCK_STALE_MS_def)

theorem swarm_lock_protocol_witness:
  "spec_lock_stale ex_alive 1768903200000 ex_lock_beta
   \<and> acquire (ex_sys 100) 0 (Some ex_lock_beta) []
       = \<lparr>outcome = Inr (),
          lock_left = Some \<lparr>mtimeMs = 1768903200000, content = Some (js ''100'')\<rparr>,
          events = [UnlinkStale, OpenExcl]\<rparr>
   \<and> \<not> spec_lock_stale ex_alive 1768903200000 ex_lock_gamma
   \<and> outcome (acquire (ex_sys 100) 0 (Some ex_lock_gamma) [])
       = Inl (Error ''Failed to acquire swarm lock'')
   \<and> opens (events (acquire (ex_sys 100) 0 (Some ex_lock_gamma) [])) = 50
   \<and> sleeps (events (acquire (ex_sys 100) 0 (Some ex_lock_gamma) [])) = replicate 49 (Sleep 100)
   \<and> withSwarmLock (ex_sys 100) (\<lambda>f. (Inr (), f)) ((ex_fs [] [])\<lparr>swarm_lock := Some ex_lock_gamma\<rparr>)
       = (Inl (Error ''Failed to acquire swarm lock''), (ex_fs [] [])\<lparr>swarm_lock := Some ex_lock_gamma\<rparr>)"
proof -
  have sb: "spec_lock_stale ex_alive 1768903200000 ex_lock_beta"
    by (simp add: spec_lock_stale_def spec_pid_dead_def ex_lock_beta_def ex_parse ex_alive_def)
  have sg: "\<not> spec_lock_stale ex_alive 1768903200000 ex_lock_gamma"
    by (simp add: spec_lock_stale_def spec_pid_dead_def ex_lock_gamma_def ex_parse ex_alive_def)
  have rb: "removeStaleLock (isProcessAlive (ex_sys 100)) (date_now (ex_sys 100) 0) (Some ex_lock_beta) = None"
    by (simp add: removeStaleLock_def ex_sys_def ex_lock_beta_def ex_parse ex_alive_def LOCK_STALE_MS_def)
  have own: "String_int 100 = js ''100''"
    by (simp add: String_int_def js_def natDigits.simps)
  have held: "\<forall>j < 50. seen_lock (ex_sys 100) j (Some ex_lock_gamma) = Some ex_lock_gamma"
    by (simp add: seen_lock_def ex_sys_def removeStaleLock_def ex_lock_gamma_def ex_parse ex_alive_def)
  have pre: "(0::nat) < 50" "lock_interference (ex_sys 100) 0 (Some ex_lock_beta) = Some ex_lock_beta"
    "open_errno (ex_sys 100) 0 = None" "date_now (ex_sys 100) 0 = 1768903200000"
    "process_pid (ex_sys 100) = 100"
    by (simp_all add: ex_sys_def)
  have wl: "withSwarmLock (ex_sys 100) (\<lambda>f. (Inr (), f)) ((ex_fs [] [])\<lparr>swarm_lock := Some ex_lock_gamma\<rparr>)
       = (Inl (Error ''Failed to acquire swarm lock''), (ex_fs [] [])\<lparr>swarm_lock := Some ex_lock_gamma\<rparr>)"
    using swarm_lock_protocol[of ex_alive 0 ex_lock_gamma 0 "ex_sys 100" "Some ex_lock_gamma" "[]"
        "\<lambda>f. (Inr (), f)" "ex_fs [] []"] held by blast
  then have fail: "outcome (acquire (ex_sys 100) 0 (Some ex_lock_gamma) [])
       = Inl (Error ''Failed to acquire swarm lock'')"
    by (auto simp: withSwarmLock_def Let_def split: sum.splits)
  have tb: "acquire (ex_sys 100) 0 (Some ex_lock_beta) []
       = \<lparr>outcome = Inr (),
          lock_left = Some \<lparr>mtimeMs = 1768903200000, content = Some (js ''100'')\<rparr>,
          events = [UnlinkStale, OpenExcl]\<rparr>"
    using swarm_lock_protocol[of ex_alive 0 ex_lock_beta 0 "ex_sys 100" "Some ex_lock_beta" "[]"
        "\<lambda>f. (Inr (), f)" "ex_fs [] []"] rb pre
    by (simp add: own)
  have cnt: "opens (events (acquire (ex_sys 100) 0 (Some ex_lock_gamma) [])) = 50"
    "sleeps (events (acquire (ex_sys 100) 0 (Some ex_lock_gamma) [])) = replicate 49 (Sleep 100)"
    using swarm_lock_protocol[of ex_alive 0 ex_lock_gamma 0 "ex_sys 100" "Some ex_lock_gamma" "[]"
        "\<lambda>f. (Inr (), f)" "ex_fs [] []"] fail
    by simp_all
  show ?thesis using sb sg tb fail cnt wl by simp
qed

section \<open>Properties of the swarm store\<close>

subsection \<open>The purge loops compute the purge\<close>

lemma stale_key_Cons:
  "stale_key stale ((k, c) # xs) k' = ((k' = k \<and> stale c) \<or> stale_key stale xs k')"
  by (auto simp: stale_key_def)

lemma filter_delete_key:
  "filter (\<lambda>(k', c'). P k') (AList.delete k acc) = filter (\<lambda>(k', c'). k' \<noteq> k \<and> P k') acc"
  by (induction acc) (auto simp: AList.delete_eq)

lemma cleanupTasks_fold:
  "fold (\<lambda>(taskId, claim) (ts, removed).
             if stale claim then (AList.delete taskId ts, removed + 1) else (ts, removed))
       xs (acc, n)
   = (filter (\<lambda>(k, c). \<not> stale_key stale xs k) acc,
      n + length (filter (\<lambda>(k, c). stale c) xs))"
proof (induction xs arbitrary: acc n)
  case Nil
  then show ?case by (simp add: stale_key_def)
next
  case (Cons x xs)
  obtain k c where x: "x = (k, c)" by (cases x)
  show ?case
  proof (cases "stale c")
    case True
    have "filter (\<lambda>(k', c'). \<not> stale_key stale xs k') (AList.delete k acc)
        = filter (\<lambda>(k', c'). \<not> stale_key stale (x # xs) k') acc"
      using True by (simp add: filter_delete_key x stale_key_Cons)
    then show ?thesis using True by (simp add: x Cons.IH)
  next
    case False
    then show ?thesis by (simp add: x Cons.IH stale_key_Cons)
  qed
qed

lemma cleanupTasks_eq:
  assumes "distinct (map fst tasks)"
  shows "cleanupTasks stale tasks = (keep_fresh stale tasks, length (filter (\<lambda>(k, c). stale c) tasks))"
proof -
  have "filter (\<lambda>(k, c). \<not> stale_key stale tasks k) tasks = keep_fresh stale tasks"
    unfolding keep_fresh_def
  proof (rule filter_cong[OF refl])
    fix x assume xin: "x \<in> set tasks"
    obtain k c where x: "x = (k, c)" by (cases x)
    have "\<And>c'. (k, c') \<in> set tasks \<Longrightarrow> c' = c"
      using assms xin x eq_key_imp_eq_value[of tasks] by blast
    then have "stale_key stale tasks k = stale c"
      using xin x unfolding stale_key_def by blast
    then show "(case x of (k, c) \<Rightarrow> \<not> stale_key stale tasks k) = (case x of (taskId, claim) \<Rightarrow> \<not> stale claim)"
      by (simp add: x)
  qed
  then show ?thesis
    unfolding cleanupTasks_def by (simp add: cleanupTasks_fold)
qed


lemma map_other_keys:
  "k \<notin> fst ` set acc \<Longrightarrow> map (\<lambda>(k', t'). if k' = k then a else h (k', t')) acc = map h acc"
  by (induction acc) auto

lemma bind_update:
  "distinct (map fst acc) \<Longrightarrow> k \<in> fst ` set acc \<Longrightarrow>
   concat (map h (AList.update k v acc))
   = concat (map (\<lambda>(k', t'). if k' = k then h (k, v) else h (k', t')) acc)"
proof (induction acc)
  case Nil
  then show ?case by simp
next
  case (Cons e acc)
  obtain k' t' where e: "e = (k', t')" by (cases e)
  show ?case
  proof (cases "k' = k")
    case True
    then have "k \<notin> fst ` set acc" using Cons.prems e by auto
    then show ?thesis using True e by (simp add: map_other_keys)
  next
    case False
    then show ?thesis using Cons e by auto
  qed
qed

lemma bind_delete:
  "concat (map h (AList.delete k acc))
   = concat (map (\<lambda>(k', t'). if k' = k then [] else h (k', t')) acc)"
  by (induction acc) (auto simp: AList.delete_eq)

lemma delete_update_same: "AList.delete k (AList.update k v acc) = AList.delete k acc"
  by (induction acc) (auto simp: AList.delete_eq)

lemma distinct_keys_delete: "distinct (map fst acc) \<Longrightarrow> distinct (map fst (AList.delete k acc))"
  by (simp add: AList.distinct_delete)

lemma cleanup_fold:
  "distinct (map fst xs) \<Longrightarrow> inner_distinct xs \<Longrightarrow> distinct (map fst acc) \<Longrightarrow>
   fst ` set xs \<subseteq> fst ` set acc \<Longrightarrow>
   fold (\<lambda>(spc, tasks) (cs, removed).
             case cleanupTasks stale tasks of
               (tasks', n) \<Rightarrow>
                 (if length tasks' = 0 then AList.delete spc (AList.update spc tasks' cs)
                  else AList.update spc tasks' cs,
                  removed + n))
       xs (acc, n0)
   = (concat (map (purge_entry stale xs) acc), n0 + stale_count stale xs)"
proof (induction xs arbitrary: acc n0)
  case Nil
  then show ?case by (simp add: purge_entry_def stale_count_def)
next
  case (Cons x xs)
  obtain k t where x: "x = (k, t)" by (cases x)
  have dt: "distinct (map fst t)" using Cons.prems(2) by (simp add: inner_distinct_def x)
  have dxs: "distinct (map fst xs)" and kxs: "k \<notin> fst ` set xs" using Cons.prems(1) by (auto simp: x)
  have ixs: "inner_distinct xs" using Cons.prems(2) by (simp add: inner_distinct_def)
  have kacc: "k \<in> fst ` set acc" using Cons.prems(4) by (simp add: x)
  have sub: "fst ` set xs \<subseteq> fst ` set acc" using Cons.prems(4) by simp
  have mk: "map_of xs k = None" using kxs by (simp add: map_of_eq_None_iff)
  let ?kf = "keep_fresh stale t"
  let ?n = "length (filter (\<lambda>(k, c). stale c) t)"
  have ct: "cleanupTasks stale t = (?kf, ?n)" by (rule cleanupTasks_eq[OF dt])
  show ?case
  proof (cases "?kf = []")
    case True
    let ?acc' = "AList.delete k acc"
    have d': "distinct (map fst ?acc')" using Cons.prems(3) by (simp add: AList.distinct_delete)
    have "set (map fst ?acc') = set (map fst acc) - {k}" by (simp only: AList.delete_keys) simp
    then have s': "fst ` set xs \<subseteq> fst ` set ?acc'" using sub kxs by auto
    have "concat (map (purge_entry stale xs) ?acc') = concat (map (purge_entry stale (x # xs)) acc)"
      unfolding bind_delete
      by (rule arg_cong[where f = concat], rule map_cong[OF refl]) (auto simp: purge_entry_def x True)
    then show ?thesis
      using Cons.IH[OF dxs ixs d' s'] True by (simp add: x ct delete_update_same stale_count_def)
  next
    case False
    let ?acc' = "AList.update k ?kf acc"
    have d': "distinct (map fst ?acc')" using Cons.prems(3) by (simp add: AList.distinct_update)
    have "set (map fst ?acc') = set (map fst acc)" using kacc by (simp only: AList.update_keys) auto
    then have s': "fst ` set xs \<subseteq> fst ` set ?acc'" using sub by auto
    have "concat (map (purge_entry stale xs) ?acc') = concat (map (purge_entry stale (x # xs)) acc)"
      unfolding bind_update[OF Cons.prems(3) kacc]
      by (rule arg_cong[where f = concat], rule map_cong[OF refl]) (auto simp: purge_entry_def x False mk)
    then show ?thesis
      using Cons.IH[OF dxs ixs d' s'] False by (simp add: x ct stale_count_def)
  qed
qed


lemma cleanupStaleClaims_eq:
  assumes d: "distinct (map fst claims)" and i: "inner_distinct claims"
  shows "cleanupStaleClaims stale claims = (purge stale claims, stale_count stale claims)"
proof -
  have "map (purge_entry stale claims) claims
      = map (\<lambda>(k, t). if keep_fresh stale t = [] then [] else [(k, keep_fresh stale t)]) claims"
  proof (rule map_cong[OF refl])
    fix e assume "e \<in> set claims"
    then have "map_of claims (fst e) = Some (snd e)"
      using map_of_eq_Some_iff[OF d, of "fst e" "snd e"] by simp
    then show "purge_entry stale claims e
       = (case e of (k, t) \<Rightarrow> if keep_fresh stale t = [] then [] else [(k, keep_fresh stale t)])"
      by (cases e) (simp add: purge_entry_def)
  qed
  also have "concat \<dots> = purge stale claims"
    unfolding purge_def by (induction claims) auto
  finally have "concat (map (purge_entry stale claims) claims) = purge stale claims" by simp
  then show ?thesis
    unfolding cleanupStaleClaims_def using cleanup_fold[OF d i d subset_refl, of stale 0] by simp
qed

subsection \<open>obj_set on ordered objects\<close>

lemma insert_index_append:
  "\<forall>a \<in> fst ` set acc. \<exists>m. array_index a = Some m \<and> m < n \<Longrightarrow>
   insert_index n k v acc = acc @ [(k, v)]"
  by (induction acc) auto

lemma obj_set_append:
  assumes "k \<notin> fst ` set acc" and "\<forall>a \<in> fst ` set acc. key_before a k"
  shows "obj_set k v acc = acc @ [(k, v)]"
proof (cases "array_index k")
  case None
  then show ?thesis using assms by (simp add: obj_set_def)
next
  case (Some n)
  have "\<forall>a \<in> fst ` set acc. \<exists>m. array_index a = Some m \<and> m < n"
    using assms(2) Some by (auto simp: key_before_def split: option.splits)
  then show ?thesis using assms(1) Some by (simp add: obj_set_def insert_index_append)
qed

lemma js_ordered_snoc:
  "js_ordered (acc @ (k, v) # xs) \<Longrightarrow> k \<notin> fst ` set acc \<and> (\<forall>a \<in> fst ` set acc. key_before a k)"
  by (auto simp: js_ordered_def sorted_wrt_append)

lemma js_ordered_drop_mid:
  "js_ordered (acc @ x # xs) \<Longrightarrow> js_ordered (acc @ xs)"
  by (auto simp: js_ordered_def sorted_wrt_append)

lemma js_ordered_filter: "js_ordered xs \<Longrightarrow> js_ordered (filter P xs)"
  unfolding js_ordered_def
  by (induction xs) (auto simp: distinct_map_filter)

lemma filterTasks_fold:
  "js_ordered (acc @ xs) \<Longrightarrow>
   fold (\<lambda>(taskId, claim) filteredTasks.
             if \<not> stale claim then obj_set taskId claim filteredTasks else filteredTasks) xs acc
   = acc @ keep_fresh stale xs"
proof (induction xs arbitrary: acc)
  case Nil
  then show ?case by (simp add: keep_fresh_def)
next
  case (Cons x xs)
  obtain k c where x: "x = (k, c)" by (cases x)
  show ?case
  proof (cases "stale c")
    case True
    then show ?thesis using Cons.IH[OF js_ordered_drop_mid[OF Cons.prems]] by (simp add: x keep_fresh_def)
  next
    case False
    have "obj_set k c acc = acc @ [(k, c)]"
      using js_ordered_snoc[OF Cons.prems[unfolded x]] by (intro obj_set_append) auto
    moreover have "js_ordered ((acc @ [(k, c)]) @ xs)" using Cons.prems by (simp add: x)
    ultimately show ?thesis using False Cons.IH[of "acc @ [(k, c)]"] by (simp add: x keep_fresh_def)
  qed
qed

lemma filterTasks_eq: "js_ordered tasks \<Longrightarrow> filterTasks stale tasks = keep_fresh stale tasks"
  unfolding filterTasks_def using filterTasks_fold[of "[]" tasks stale] by simp

lemma filterStale_fold:
  "js_ordered (acc @ xs) \<Longrightarrow> \<forall>e \<in> set xs. js_ordered (snd e) \<Longrightarrow>
   fold (\<lambda>(spc, tasks) filtered.
             let filteredTasks = filterTasks stale tasks
             in if length filteredTasks > 0 then obj_set spc filteredTasks filtered else filtered) xs acc
   = acc @ purge stale xs"
proof (induction xs arbitrary: acc)
  case Nil
  then show ?case by (simp add: purge_def)
next
  case (Cons x xs)
  obtain k t where x: "x = (k, t)" by (cases x)
  have ft: "filterTasks stale t = keep_fresh stale t" using Cons.prems(2) by (simp add: x filterTasks_eq)
  have rest: "\<forall>e \<in> set xs. js_ordered (snd e)" using Cons.prems(2) by simp
  show ?case
  proof (cases "keep_fresh stale t = []")
    case True
    then show ?thesis
      using Cons.IH[OF js_ordered_drop_mid[OF Cons.prems(1)] rest] by (simp add: x ft purge_def)
  next
    case False
    have "obj_set k (keep_fresh stale t) acc = acc @ [(k, keep_fresh stale t)]"
      using js_ordered_snoc[OF Cons.prems(1)[unfolded x]] by (intro obj_set_append) auto
    moreover have "js_ordered ((acc @ [(k, keep_fresh stale t)]) @ xs)"
      using Cons.prems(1) by (simp add: x js_ordered_def)
    ultimately show ?thesis
      using False Cons.IH[of "acc @ [(k, keep_fresh stale t)]", OF _ rest] by (simp add: x ft purge_def)
  qed
qed

lemma filterStaleClaims_eq: "wf_claims claims \<Longrightarrow> filterStaleClaims stale claims = purge stale claims"
  unfolding filterStaleClaims_def wf_claims_def using filterStale_fold[of "[]" claims stale] by simp

lemma wf_claims_distinct: "wf_claims claims \<Longrightarrow> distinct (map fst claims) \<and> inner_distinct claims"
  by (auto simp: wf_claims_def js_ordered_def inner_distinct_def)

lemma cleanupStaleClaims_wf:
  "wf_claims claims \<Longrightarrow> cleanupStaleClaims stale claims = (purge stale claims, stale_count stale claims)"
  using cleanupStaleClaims_eq wf_claims_distinct by blast


lemma keep_fresh_idem: "keep_fresh stale (keep_fresh stale t) = keep_fresh stale t"
  by (simp add: keep_fresh_def)

lemma purge_idem: "purge stale (purge stale claims) = purge stale claims"
  by (induction claims) (auto simp: purge_def keep_fresh_idem)

lemma keep_fresh_no_stale: "filter (\<lambda>(k, c). stale c) (keep_fresh stale t) = []"
  by (induction t) (auto simp: keep_fresh_def)

lemma stale_count_purge: "stale_count stale (purge stale claims) = 0"
  by (induction claims) (auto simp: purge_def stale_count_def keep_fresh_no_stale)

lemma wf_claims_purge: "wf_claims claims \<Longrightarrow> wf_claims (purge stale claims)"
proof -
  assume wf: "wf_claims claims"
  have keys: "map fst (map (\<lambda>(spc, tasks). (spc, keep_fresh stale tasks)) claims) = map fst claims"
    by (induction claims) auto
  have "js_ordered (map (\<lambda>(spc, tasks). (spc, keep_fresh stale tasks)) claims)"
    using wf unfolding wf_claims_def js_ordered_def keys by simp
  then have "js_ordered (purge stale claims)" unfolding purge_def by (rule js_ordered_filter)
  moreover have "\<forall>e \<in> set (purge stale claims). js_ordered (snd e)"
    using wf by (fastforce simp: purge_def wf_claims_def keep_fresh_def intro: js_ordered_filter)
  ultimately show ?thesis by (simp add: wf_claims_def)
qed

lemma map_of_keep_fresh:
  "distinct (map fst t) \<Longrightarrow>
   map_of (keep_fresh stale t) k = (case map_of t k of None \<Rightarrow> None | Some c \<Rightarrow> if stale c then None else Some c)"
proof (induction t)
  case Nil
  then show ?case by (simp add: keep_fresh_def)
next
  case (Cons e t)
  obtain k' c' where e: "e = (k', c')" by (cases e)
  have "k' \<notin> fst ` set t" using Cons.prems by (simp add: e)
  then have "map_of t k' = None" by (simp add: map_of_eq_None_iff)
  then show ?case using Cons by (auto simp: keep_fresh_def e)
qed

lemma map_of_purge:
  "distinct (map fst claims) \<Longrightarrow>
   map_of (purge stale claims) s
   = (case map_of claims s of None \<Rightarrow> None
      | Some t \<Rightarrow> if keep_fresh stale t = [] then None else Some (keep_fresh stale t))"
proof (induction claims)
  case Nil
  then show ?case by (simp add: purge_def)
next
  case (Cons e claims)
  obtain k' t' where e: "e = (k', t')" by (cases e)
  have "k' \<notin> fst ` set claims" using Cons.prems by (simp add: e)
  then have "map_of claims k' = None" by (simp add: map_of_eq_None_iff)
  then show ?case using Cons by (auto simp: purge_def e)
qed

lemma get2_purge:
  assumes "distinct (map fst claims)" and "inner_distinct claims"
  shows "get2 (purge stale claims) s t
   = (case get2 claims s t of None \<Rightarrow> None | Some c \<Rightarrow> if stale c then None else Some c)"
proof (cases "map_of claims s")
  case None
  then show ?thesis by (simp add: get2_def map_of_purge[OF assms(1)])
next
  case (Some b)
  then have "(s, b) \<in> set claims" by (rule map_of_SomeD)
  then have db: "distinct (map fst b)" using assms(2) by (auto simp: inner_distinct_def)
  show ?thesis
  proof (cases "keep_fresh stale b = []")
    case True
    have "(case map_of b t of None \<Rightarrow> None | Some c \<Rightarrow> if stale c then None else Some c)
          = map_of (keep_fresh stale b) t" by (simp only: map_of_keep_fresh[OF db])
    also have "\<dots> = None" by (simp add: True)
    finally show ?thesis
      using Some True by (simp add: get2_def map_of_purge[OF assms(1)])
  next
    case False
    then show ?thesis
      using Some by (simp add: get2_def map_of_purge[OF assms(1)] map_of_keep_fresh[OF db])
  qed
qed

text \<open>
  Claim C7. The stale-claim purge is idempotent and keeps exactly the claims that are
  not stale: for a claims map as the program writes it (the keys of every object in
  their order, none of them \<open>__proto__\<close>), \<open>filterStaleClaims\<close> applied
  twice gives what it gives applied once; \<open>cleanupStaleClaims\<close> applied to its own
  result removes nothing and changes nothing; both compute the same map; and in that
  map a place holds a claim exactly when it held that claim before and the claim is
  not stale.
\<close>

theorem stale_purge_idempotent:
  assumes "wf_claims claims"
  shows "filterStaleClaims (isClaimStale alive reg) (filterStaleClaims (isClaimStale alive reg) claims)
           = filterStaleClaims (isClaimStale alive reg) claims
       \<and> cleanupStaleClaims (isClaimStale alive reg) (fst (cleanupStaleClaims (isClaimStale alive reg) claims))
           = (fst (cleanupStaleClaims (isClaimStale alive reg) claims), 0)
       \<and> fst (cleanupStaleClaims (isClaimStale alive reg) claims)
           = filterStaleClaims (isClaimStale alive reg) claims
       \<and> (\<forall>spc t. get2 (filterStaleClaims (isClaimStale alive reg) claims) spc t
              = (case get2 claims spc t of
                   None \<Rightarrow> None
                 | Some c \<Rightarrow> if isClaimStale alive reg c then None else Some c))"
proof -
  let ?st = "isClaimStale alive reg"
  have wfp: "wf_claims (purge ?st claims)" using assms by (rule wf_claims_purge)
  have f: "filterStaleClaims ?st claims = purge ?st claims" using assms by (rule filterStaleClaims_eq)
  have c: "cleanupStaleClaims ?st claims = (purge ?st claims, stale_count ?st claims)"
    using assms by (rule cleanupStaleClaims_wf)
  have "filterStaleClaims ?st (purge ?st claims) = purge ?st claims"
    using filterStaleClaims_eq[OF wfp] by (simp add: purge_idem)
  moreover have "cleanupStaleClaims ?st (purge ?st claims) = (purge ?st claims, 0)"
    using cleanupStaleClaims_wf[OF wfp] by (simp add: purge_idem stale_count_purge)
  moreover have "\<forall>spc t. get2 (purge ?st claims) spc t
              = (case get2 claims spc t of None \<Rightarrow> None | Some c \<Rightarrow> if ?st c then None else Some c)"
    using get2_purge wf_claims_distinct[OF assms] by blast
  ultimately show ?thesis by (simp add: f c)
qed

lemma ex_claims_wf: "wf_claims ex_claims"
  by (simp add: wf_claims_def js_ordered_def ex_claims_def key_before_def array_index_def
      isDigit_def digitsValue_def)

lemma ex_claims_stale:
  "isClaimStale ex_alive ex_registry ex_claimB" "\<not> isClaimStale ex_alive ex_registry ex_claimA"
  by (simp_all add: isClaimStale_def ex_registry_def ex_claimA_def ex_claimB_def ex_alive_def
      ex_reg_def)

theorem stale_purge_idempotent_witness:
  "wf_claims ex_claims
   \<and> filterStaleClaims (isClaimStale ex_alive ex_registry) ex_claims
       = [(''spec.md'', [(''T-2'', ex_claimA)])]
   \<and> cleanupStaleClaims (isClaimStale ex_alive ex_registry) ex_claims
       = ([(''spec.md'', [(''T-2'', ex_claimA)])], 2)
   \<and> filterStaleClaims (isClaimStale ex_alive ex_registry)
         (filterStaleClaims (isClaimStale ex_alive ex_registry) ex_claims)
       = filterStaleClaims (isClaimStale ex_alive ex_registry) ex_claims
   \<and> cleanupStaleClaims (isClaimStale ex_alive ex_registry)
         (fst (cleanupStaleClaims (isClaimStale ex_alive ex_registry) ex_claims))
       = ([(''spec.md'', [(''T-2'', ex_claimA)])], 0)"
proof -
  have f: "filterStaleClaims (isClaimStale ex_alive ex_registry) ex_claims
       = [(''spec.md'', [(''T-2'', ex_claimA)])]"
    by (simp add: filterStaleClaims_def filterTasks_def ex_claims_def ex_claims_stale obj_set_def
        array_index_def isDigit_def digitsValue_def)
  have c: "cleanupStaleClaims (isClaimStale ex_alive ex_registry) ex_claims
       = ([(''spec.md'', [(''T-2'', ex_claimA)])], 2)"
    by (simp add: cleanupStaleClaims_def cleanupTasks_def ex_claims_def ex_claims_stale
        AList.delete_eq)
  show ?thesis
    using stale_purge_idempotent[OF ex_claims_wf, of ex_alive ex_registry] ex_claims_wf
    by (simp add: f c)
qed

subsection \<open>Reading and writing properties\<close>



lemma set_insert_index: "set (insert_index n k v ob) = insert (k, v) (set ob)"
  by (induction ob) (auto split: option.splits if_splits)

lemma keys_insert_index: "set (map fst (insert_index n k v ob)) = insert k (set (map fst ob))"
  by (simp add: set_insert_index)

lemma set_update_subset: "set (AList.update k v ob) \<subseteq> insert (k, v) (set ob)"
  by (induction ob) auto

lemma set_obj_set_subset: "set (obj_set k v ob) \<subseteq> insert (k, v) (set ob)"
  using set_update_subset[of k v ob]
  by (auto simp: obj_set_def set_insert_index split: option.splits)


lemma distinct_insert_index:
  "k \<notin> fst ` set ob \<Longrightarrow> distinct (map fst ob) \<Longrightarrow> distinct (map fst (insert_index n k v ob))"
proof (induction ob)
  case Nil
  then show ?case by simp
next
  case (Cons e ob)
  have "fst e \<notin> set (map fst (insert_index n k v ob))"
    using Cons.prems unfolding keys_insert_index by auto
  then show ?case using Cons by (cases e) (auto split: option.splits)
qed

lemma distinct_obj_set: "distinct (map fst ob) \<Longrightarrow> distinct (map fst (obj_set k v ob))"
  by (auto simp: obj_set_def AList.distinct_update distinct_insert_index split: option.splits)



lemma distinct_keys_set2: "distinct_keys ob \<Longrightarrow> distinct_keys (set2 a b v ob)"
proof -
  assume d: "distinct_keys ob"
  have inner: "\<And>i. map_of ob a = Some i \<Longrightarrow> distinct (map fst i)"
    using d by (auto simp: distinct_keys_def inner_distinct_def dest!: map_of_SomeD)
  have "\<And>w. distinct (map fst w) \<Longrightarrow> inner_distinct (obj_set a w ob)"
  proof -
    fix w :: "'a obj" assume w: "distinct (map fst w)"
    show "inner_distinct (obj_set a w ob)"
      using d w set_obj_set_subset[of a w ob]
      by (fastforce simp: inner_distinct_def distinct_keys_def)
  qed
  then show ?thesis
    using d inner by (auto simp: set2_def distinct_keys_def distinct_obj_set split: option.splits)
qed

lemma distinct_keys_delete2: "distinct_keys ob \<Longrightarrow> distinct_keys (delete2 a b ob)"
proof -
  assume d: "distinct_keys ob"
  have sub1: "set (AList.delete a ob) \<subseteq> set ob" by (auto simp: AList.delete_eq)
  have "\<And>w. distinct (map fst w) \<Longrightarrow> inner_distinct (AList.update a w ob)"
    using d set_update_subset[of a _ ob] by (fastforce simp: inner_distinct_def distinct_keys_def)
  moreover have "inner_distinct (AList.delete a ob)"
    using d sub1 by (auto simp: inner_distinct_def distinct_keys_def)
  moreover have "\<And>i. map_of ob a = Some i \<Longrightarrow> distinct (map fst (AList.delete b i))"
    using d by (auto simp: distinct_keys_def inner_distinct_def AList.distinct_delete dest!: map_of_SomeD)
  ultimately show ?thesis
    using d by (auto simp: delete2_def Let_def distinct_keys_def AList.distinct_delete AList.distinct_update
        split: option.splits)
qed

lemma distinct_keys_purge: "distinct_keys ob \<Longrightarrow> distinct_keys (purge stale ob)"
proof -
  assume d: "distinct_keys ob"
  have keys: "map fst (map (\<lambda>(spc, tasks). (spc, keep_fresh stale tasks)) ob) = map fst ob"
    by (induction ob) auto
  have "distinct (map fst (map (\<lambda>(spc, tasks). (spc, keep_fresh stale tasks)) ob))"
    using d unfolding keys by (simp add: distinct_keys_def)
  then have "distinct (map fst (purge stale ob))"
    unfolding purge_def by (rule distinct_map_filter)
  moreover have "inner_distinct (purge stale ob)"
    using d by (fastforce simp: purge_def inner_distinct_def distinct_keys_def keep_fresh_def
        intro: distinct_map_filter)
  ultimately show ?thesis by (simp add: distinct_keys_def)
qed

lemma length_heldBy: "length (heldBy a claims) = sum_list (map (bucket_count a) claims)"
  by (induction claims) (auto simp: heldBy_def bucket_count_def)

lemma sum_insert_index:
  "sum_list (map g (insert_index n k v ob)) = g (k, v) + sum_list (map (g :: _ \<Rightarrow> nat) ob)"
  by (induction ob) (auto split: option.splits)

lemma sum_update_old:
  "map_of ob k = Some old \<Longrightarrow>
   sum_list (map g (AList.update k v ob)) + g (k, old) = sum_list (map (g :: _ \<Rightarrow> nat) ob) + g (k, v)"
  by (induction ob) (auto split: if_splits)

lemma sum_obj_set_new:
  "map_of ob k = None \<Longrightarrow>
   sum_list (map g (obj_set k v ob)) = sum_list (map (g :: _ \<Rightarrow> nat) ob) + g (k, v)"
  by (auto simp: obj_set_def sum_insert_index map_of_eq_None_iff split: option.splits)

lemma sum_delete_le:
  "sum_list (map g (AList.delete k ob)) \<le> sum_list (map (g :: _ \<Rightarrow> nat) ob)"
  by (induction ob) (auto simp: AList.delete_eq)

lemma length_filter_insert_index:
  "length (filter P (insert_index n k v ob)) = (if P (k, v) then 1 else 0) + length (filter P ob)"
  by (induction ob) (auto split: option.splits)

lemma count_obj_set_new:
  "map_of inner b = None \<Longrightarrow>
   length (filter (\<lambda>(taskId, c). agent c = a) (obj_set b v inner))
   = length (filter (\<lambda>(taskId, c). agent c = a) inner) + (if agent v = a then 1 else 0)"
  by (auto simp: obj_set_def length_filter_insert_index map_of_eq_None_iff split: option.splits)

lemma length_heldBy_set2:
  assumes "get2 ob sp t = None"
  shows "length (heldBy a (set2 sp t v ob)) = length (heldBy a ob) + (if agent v = a then 1 else 0)"
proof (cases "map_of ob sp")
  case None
  have "bucket_count a (sp, obj_set t v []) = (if agent v = a then 1 else 0)"
    by (simp add: bucket_count_def obj_set_def split: option.splits)
  then show ?thesis using None by (simp add: length_heldBy set2_def sum_obj_set_new)
next
  case (Some inner)
  then have n: "map_of inner t = None" using assms by (simp add: get2_def)
  have "bucket_count a (sp, obj_set t v inner) = bucket_count a (sp, inner) + (if agent v = a then 1 else 0)"
    by (simp add: bucket_count_def count_obj_set_new[OF n])
  moreover have "obj_set sp (obj_set t v inner) ob = AList.update sp (obj_set t v inner) ob"
    using Some by (auto simp: obj_set_def map_of_eq_None_iff[symmetric])
  ultimately show ?thesis
    using Some sum_update_old[OF Some, of "bucket_count a" "obj_set t v inner"]
    by (simp add: length_heldBy set2_def)
qed

lemma length_heldBy_delete2: "length (heldBy a (delete2 sp t ob)) \<le> length (heldBy a ob)"
proof (cases "map_of ob sp")
  case None
  then show ?thesis by (simp add: delete2_def)
next
  case (Some inner)
  have le: "bucket_count a (sp, AList.delete t inner) \<le> bucket_count a (sp, inner)"
    by (induction inner) (auto simp: bucket_count_def AList.delete_eq)
  show ?thesis
    using Some le sum_update_old[OF Some, of "bucket_count a" "AList.delete t inner"]
      sum_delete_le[of "bucket_count a" sp ob]
    by (auto simp: length_heldBy delete2_def Let_def)
qed

lemma heldBy_purge:
  "heldBy a (purge stale claims)
   = concat (map (\<lambda>(spc, tasks).
        map (\<lambda>(taskId, c). (spc, taskId))
          (filter (\<lambda>(taskId, c). agent c = a \<and> \<not> stale c) tasks)) claims)"
proof (induction claims)
  case Nil
  then show ?case by (simp add: heldBy_def purge_def)
next
  case (Cons e claims)
  obtain k t where e: "e = (k, t)" by (cases e)
  have f: "filter (\<lambda>(taskId, c). agent c = a) (keep_fresh stale t)
         = filter (\<lambda>(taskId, c). agent c = a \<and> \<not> stale c) t"
    by (induction t) (auto simp: keep_fresh_def)
  have p: "purge stale (e # claims)
       = (if keep_fresh stale t = [] then purge stale claims else (k, keep_fresh stale t) # purge stale claims)"
    by (simp add: purge_def e)
  show ?case
  proof (cases "keep_fresh stale t = []")
    case True
    then have "filter (\<lambda>(taskId, c). agent c = a \<and> \<not> stale c) t = []" using f by simp
    then show ?thesis using Cons True p by (simp add: e heldBy_def)
  next
    case False
    then show ?thesis using Cons p f by (simp add: e heldBy_def)
  qed
qed

lemma nonStaleClaimsOf_purge:
  "nonStaleClaimsOf alive f a = heldBy a (purge (isClaimStale alive (registry f)) (readClaimsSync f))"
  by (simp add: nonStaleClaimsOf_def heldBy_purge)

lemma length_heldBy_purge_le: "length (heldBy a (purge stale claims)) \<le> length (heldBy a claims)"
proof -
  have "length (filter (\<lambda>(taskId, c). agent c = a \<and> \<not> stale c) t)
        \<le> length (filter (\<lambda>(taskId, c). agent c = a) t)" for t :: SpecClaims
    by (induction t) auto
  then have "sum_list (map (\<lambda>(spc, tasks). length (filter (\<lambda>(taskId, c). agent c = a \<and> \<not> stale c) tasks)) claims)
      \<le> sum_list (map (bucket_count a) claims)"
    by (induction claims) (auto simp: bucket_count_def intro: add_mono)
  moreover have "length (heldBy a (purge stale claims))
      = sum_list (map (\<lambda>(spc, tasks). length (filter (\<lambda>(taskId, c). agent c = a \<and> \<not> stale c) tasks)) claims)"
    unfolding heldBy_purge by (induction claims) auto
  ultimately show ?thesis by (simp add: length_heldBy)
qed

lemma findTaskOf_filter:
  "findTaskOf a tasks = (case filter (\<lambda>(taskId, c). agent c = a) tasks of [] \<Rightarrow> None | (taskId, c) # _ \<Rightarrow> Some taskId)"
  by (induction tasks) auto

lemma findAgentClaim_heldBy:
  "findAgentClaim claims a = (case heldBy a claims of [] \<Rightarrow> None | x # _ \<Rightarrow> Some x)"
proof (induction claims)
  case Nil
  then show ?case by (simp add: heldBy_def)
next
  case (Cons e claims)
  obtain k t where e: "e = (k, t)" by (cases e)
  have h: "heldBy a ((k, t) # claims)
     = map (\<lambda>(taskId, c). (k, taskId)) (filter (\<lambda>(taskId, c). agent c = a) t) @ heldBy a claims"
    by (simp add: heldBy_def)
  show ?case
    using Cons unfolding e h
    by (cases "filter (\<lambda>(taskId, c). agent c = a) t") (auto simp: findTaskOf_filter)
qed

lemma single_claim_purge: "single_claim stale a c \<Longrightarrow> single_claim stale a (purge stale c)"
  by (simp add: single_claim_def distinct_keys_purge purge_idem)

lemma single_claim_set2:
  assumes inv: "single_claim stale a c"
    and free: "findAgentClaim (purge stale c) (agent v) = None"
    and place: "get2 (purge stale c) sp t = None"
  shows "single_claim stale a (set2 sp t v (purge stale c))"
proof -
  let ?p = "purge stale c"
  have d: "distinct_keys (set2 sp t v ?p)"
    using inv by (simp add: single_claim_def distinct_keys_purge distinct_keys_set2)
  have "length (heldBy a (purge stale (set2 sp t v ?p))) \<le> length (heldBy a (set2 sp t v ?p))"
    by (rule length_heldBy_purge_le)
  also have "\<dots> = length (heldBy a ?p) + (if agent v = a then 1 else 0)"
    by (rule length_heldBy_set2[OF place])
  also have "\<dots> \<le> 1"
  proof (cases "agent v = a")
    case True
    then have "heldBy a ?p = []"
      using free by (simp add: findAgentClaim_heldBy split: list.splits)
    then show ?thesis by simp
  next
    case False
    then show ?thesis using inv by (simp add: single_claim_def)
  qed
  finally show ?thesis using d by (simp add: single_claim_def)
qed

lemma single_claim_delete2:
  assumes inv: "single_claim stale a c"
  shows "single_claim stale a (delete2 sp t (purge stale c))"
proof -
  let ?p = "purge stale c"
  have "length (heldBy a (purge stale (delete2 sp t ?p))) \<le> length (heldBy a (delete2 sp t ?p))"
    by (rule length_heldBy_purge_le)
  also have "\<dots> \<le> length (heldBy a ?p)" by (rule length_heldBy_delete2)
  finally show ?thesis
    using inv by (simp add: single_claim_def distinct_keys_purge distinct_keys_delete2)
qed

lemma readClaimsSync_write [simp]:
  "readClaimsSync (f\<lparr>claims_json := Some (Parsed c)\<rparr>) = c"
  by (simp add: readClaimsSync_def)

lemma cleanup_distinct:
  "distinct_keys c \<Longrightarrow> cleanupStaleClaims stale c = (purge stale c, stale_count stale c)"
  by (simp add: distinct_keys_def cleanupStaleClaims_eq)

lemma claimTask_locked_moves:
  "claims_moved (isClaimStale (isProcessAlive s) (registry f)) a f
     (snd (claimTask_locked s sp t agnt se p rsn now f))"
proof -
  let ?st = "isClaimStale (isProcessAlive s) (registry f)"
  let ?c = "readClaimsSync f"
  show ?thesis
  proof (cases "single_claim ?st a ?c")
    case False
    then show ?thesis
      by (auto simp: claims_moved_def claimTask_locked_def writeIfRemoved_def writeClaimsSync_def
          split: prod.splits option.splits sum.splits)
  next
    case True
    then have cl: "cleanupStaleClaims ?st ?c = (purge ?st ?c, stale_count ?st ?c)"
      by (simp add: single_claim_def cleanup_distinct)
    have p: "single_claim ?st a (purge ?st ?c)" using True by (rule single_claim_purge)
    have s2: "findAgentClaim (purge ?st ?c) agnt = None \<Longrightarrow> get2 (purge ?st ?c) sp t = None \<Longrightarrow>
       single_claim ?st a (set2 sp t \<lparr>agent = agnt, sessionId = se, pid = p, claimedAt = now, reason = rsn\<rparr> (purge ?st ?c))"
      using single_claim_set2[OF True, of "\<lparr>agent = agnt, sessionId = se, pid = p, claimedAt = now, reason = rsn\<rparr>" sp t]
      by simp
    show ?thesis
      using True p s2
      by (auto simp: claims_moved_def claimTask_locked_def cl writeIfRemoved_def writeClaimsSync_def
          split: prod.splits option.splits sum.splits)
  qed
qed

lemma unclaimTask_locked_moves:
  "claims_moved (isClaimStale (isProcessAlive s) (registry f)) a f
     (snd (unclaimTask_locked s sp t agnt f))"
proof -
  let ?st = "isClaimStale (isProcessAlive s) (registry f)"
  let ?c = "readClaimsSync f"
  show ?thesis
  proof (cases "single_claim ?st a ?c")
    case False
    then show ?thesis
      by (auto simp: claims_moved_def unclaimTask_locked_def writeIfRemoved_def writeClaimsSync_def
          split: prod.splits option.splits sum.splits)
  next
    case True
    then have cl: "cleanupStaleClaims ?st ?c = (purge ?st ?c, stale_count ?st ?c)"
      by (simp add: single_claim_def cleanup_distinct)
    have p: "single_claim ?st a (purge ?st ?c)" using True by (rule single_claim_purge)
    have d2: "single_claim ?st a (delete2 sp t (purge ?st ?c))"
      using True by (rule single_claim_delete2)
    show ?thesis
      using True p d2
      by (auto simp: claims_moved_def unclaimTask_locked_def cl writeIfRemoved_def writeClaimsSync_def
          split: prod.splits option.splits sum.splits)
  qed
qed

lemma completeTask_locked_moves:
  "claims_moved (isClaimStale (isProcessAlive s) (registry f)) a f
     (snd (completeTask_locked s sp t agnt nts now f))"
proof -
  let ?st = "isClaimStale (isProcessAlive s) (registry f)"
  let ?c = "readClaimsSync f"
  show ?thesis
  proof (cases "single_claim ?st a ?c")
    case False
    then show ?thesis
      by (auto simp: claims_moved_def completeTask_locked_def writeIfRemoved_def writeClaimsSync_def
          writeCompletionsSync_def Let_def
          split: prod.splits option.splits sum.splits)
  next
    case True
    then have cl: "cleanupStaleClaims ?st ?c = (purge ?st ?c, stale_count ?st ?c)"
      by (simp add: single_claim_def cleanup_distinct)
    have p: "single_claim ?st a (purge ?st ?c)" using True by (rule single_claim_purge)
    have d2: "single_claim ?st a (delete2 sp t (purge ?st ?c))"
      using True by (rule single_claim_delete2)
    have rc: "\<And>x. readClaimsSync (f\<lparr>completions_json := x\<rparr>) = readClaimsSync f"
      by (simp add: readClaimsSync_def)
    show ?thesis
      using True p d2
      by (auto simp: claims_moved_def completeTask_locked_def cl writeIfRemoved_def writeClaimsSync_def
          writeCompletionsSync_def Let_def rc
          split: prod.splits option.splits sum.splits)
  qed
qed

lemma claims_moved_lock:
  assumes "\<And>g. registry g = registry f \<Longrightarrow> readClaimsSync g = readClaimsSync f \<Longrightarrow>
             claims_moved stale a g (snd (fn g))"
  shows "claims_moved stale a f (snd (withSwarmLock s fn f))"
proof (cases "outcome (acquire s 0 (swarm_lock f) [])")
  case (Inl e)
  then show ?thesis by (simp add: withSwarmLock_def claims_moved_def readClaimsSync_def)
next
  case (Inr u)
  let ?g = "f\<lparr>swarm_lock := lock_left (acquire s 0 (swarm_lock f) [])\<rparr>"
  have "claims_moved stale a ?g (snd (fn ?g))"
    by (rule assms) (simp_all add: readClaimsSync_def)
  then show ?thesis
    using Inr by (auto simp: withSwarmLock_def claims_moved_def readClaimsSync_def split: prod.splits)
qed

lemma swarm_step_moves:
  "claims_moved (isClaimStale (isProcessAlive s) (registry f)) a f (swarm_step s call f)"
proof (cases call)
  case (ClaimCall sp t agnt se p rsn now)
  show ?thesis
    unfolding ClaimCall swarm_step.simps claimTask_def
    by (rule claims_moved_lock) (metis claimTask_locked_moves)
next
  case (UnclaimCall sp t agnt)
  show ?thesis
    unfolding UnclaimCall swarm_step.simps unclaimTask_def
    by (rule claims_moved_lock) (metis unclaimTask_locked_moves)
next
  case (CompleteCall sp t agnt nts now)
  show ?thesis
    unfolding CompleteCall swarm_step.simps completeTask_def
    by (rule claims_moved_lock) (metis completeTask_locked_moves)
qed

lemma run_calls_keeps:
  assumes "\<forall>x \<in> set calls. isProcessAlive (fst x) = alive"
    and "single_claim (isClaimStale alive (registry f)) a (readClaimsSync f)"
  shows "registry (run_calls calls f) = registry f
       \<and> single_claim (isClaimStale alive (registry f)) a (readClaimsSync (run_calls calls f))"
  using assms
proof (induction calls arbitrary: f)
  case Nil
  then show ?case by (simp add: run_calls_def)
next
  case (Cons x calls)
  obtain s call where x: "x = (s, call)" by (cases x)
  have al: "isProcessAlive s = alive" using Cons.prems(1) by (simp add: x)
  have m: "claims_moved (isClaimStale alive (registry f)) a f (swarm_step s call f)"
    using swarm_step_moves[of s f a call] by (simp add: al)
  then have r: "registry (swarm_step s call f) = registry f"
    and i: "single_claim (isClaimStale alive (registry f)) a (readClaimsSync (swarm_step s call f))"
    using Cons.prems(2) by (simp_all add: claims_moved_def)
  have "registry (run_calls calls (swarm_step s call f)) = registry (swarm_step s call f)
       \<and> single_claim (isClaimStale alive (registry (swarm_step s call f))) a
            (readClaimsSync (run_calls calls (swarm_step s call f)))"
    using Cons.prems(1) i by (intro Cons.IH) (simp_all add: r)
  then show ?case by (simp add: run_calls_def x r)
qed

text \<open>The lock taken, the function runs once and the lock is released.\<close>

lemma withSwarmLock_acquired:
  "outcome (acquire s 0 (swarm_lock f) []) = Inr u \<Longrightarrow>
   withSwarmLock s fn f
   = (case fn (f\<lparr>swarm_lock := lock_left (acquire s 0 (swarm_lock f) [])\<rparr>) of
        (r, f') \<Rightarrow> (r, f'\<lparr>swarm_lock := None\<rparr>))"
  by (simp add: withSwarmLock_def)

lemma claimTask_locked_result:
  assumes dk: "distinct_keys (readClaimsSync f)"
    and w: "write_error s CLAIMS_FILE = None"
  shows "fst (claimTask_locked s sp t a se p rsn now f)
       = Inr (case nonStaleClaimsOf (isProcessAlive s) f a of
                x # _ \<Rightarrow> already_have_claim (fst x) (snd x)
              | [] \<Rightarrow>
                  (case get2 (readClaimsSync f) sp t of
                     None \<Rightarrow> claim_success now
                   | Some c \<Rightarrow> if isClaimStale (isProcessAlive s) (registry f) c
                               then claim_success now else already_claimed c))
       \<and> completions_json (snd (claimTask_locked s sp t a se p rsn now f)) = completions_json f"
proof -
  let ?st = "isClaimStale (isProcessAlive s) (registry f)"
  let ?c = "readClaimsSync f"
  have cl: "cleanupStaleClaims ?st ?c = (purge ?st ?c, stale_count ?st ?c)"
    using dk by (rule cleanup_distinct)
  have g: "get2 (purge ?st ?c) sp t
     = (case get2 ?c sp t of None \<Rightarrow> None | Some c \<Rightarrow> if ?st c then None else Some c)"
    using dk by (simp add: distinct_keys_def get2_purge)
  have h: "nonStaleClaimsOf (isProcessAlive s) f a = heldBy a (purge ?st ?c)"
    by (rule nonStaleClaimsOf_purge)
  show ?thesis
    unfolding h
    by (auto simp: claimTask_locked_def cl g w findAgentClaim_heldBy writeIfRemoved_def writeClaimsSync_def
        split: list.splits option.splits prod.splits)
qed

lemma claimTask_result:
  assumes dk: "distinct_keys (readClaimsSync f)"
    and lock: "outcome (acquire s 0 (swarm_lock f) []) = Inr ()"
    and w: "write_error s CLAIMS_FILE = None"
  shows "fst (claimTask s sp t a se p rsn now f)
       = Inr (case nonStaleClaimsOf (isProcessAlive s) f a of
                x # _ \<Rightarrow> already_have_claim (fst x) (snd x)
              | [] \<Rightarrow>
                  (case get2 (readClaimsSync f) sp t of
                     None \<Rightarrow> claim_success now
                   | Some c \<Rightarrow> if isClaimStale (isProcessAlive s) (registry f) c
                               then claim_success now else already_claimed c))
       \<and> completions_json (snd (claimTask s sp t a se p rsn now f)) = completions_json f"
proof -
  let ?g = "f\<lparr>swarm_lock := lock_left (acquire s 0 (swarm_lock f) [])\<rparr>"
  have rg: "readClaimsSync ?g = readClaimsSync f" by (simp add: readClaimsSync_def)
  have ng: "nonStaleClaimsOf (isProcessAlive s) ?g a = nonStaleClaimsOf (isProcessAlive s) f a"
    by (simp add: nonStaleClaimsOf_def rg)
  have reg: "registry ?g = registry f" by simp
  have dg: "distinct_keys (readClaimsSync ?g)" using dk by (simp add: rg)
  obtain r f' where eq: "claimTask_locked s sp t a se p rsn now ?g = (r, f')"
    by (cases "claimTask_locked s sp t a se p rsn now ?g")
  have "r = Inr (case nonStaleClaimsOf (isProcessAlive s) f a of
                x # _ \<Rightarrow> already_have_claim (fst x) (snd x)
              | [] \<Rightarrow>
                  (case get2 (readClaimsSync f) sp t of
                     None \<Rightarrow> claim_success now
                   | Some c \<Rightarrow> if isClaimStale (isProcessAlive s) (registry f) c
                               then claim_success now else already_claimed c))
       \<and> completions_json f' = completions_json f"
    using claimTask_locked_result[OF dg w, of sp t a se p rsn now, unfolded rg ng reg eq] by simp
  then show ?thesis
    unfolding claimTask_def withSwarmLock_acquired[OF lock] by (simp add: eq)
qed

lemma ex_acquire:
  "acquire (ex_sys p) 0 None []
   = \<lparr>outcome = Inr (),
      lock_left = Some \<lparr>mtimeMs = 1768903200000, content = Some (String_int p)\<rparr>,
      events = [OpenExcl]\<rparr>"
  by (simp add: acquire.simps ex_sys_def maxRetries_def removeStaleLock_def)

subsection \<open>Claiming a completed task\<close>

text \<open>
  Claim C1, as amended. \<open>claimTask\<close> does not read \<open>completions.json\<close> and has no
  result \<open>already_completed\<close> (only \<open>completeTask\<close> has). For a spec path and a task
  id that are not names of members of \<open>Object.prototype\<close>, with the lock taken and
  the write of \<open>claims.json\<close> not failing, it returns \<open>already_have_claim\<close> with the
  place of the agent's first claim that is not stale when there is one; otherwise
  \<open>already_claimed\<close> when (specPath, taskId) carries a claim that is not stale;
  otherwise success. It leaves \<open>completions.json\<close> as it was, and its result is the
  same whatever \<open>completions.json\<close> records.
\<close>

theorem claimTask_ignores_completions:
  assumes dk: "distinct_keys (readClaimsSync f)"
    and lock: "outcome (acquire s 0 (swarm_lock f) []) = Inr ()"
    and w: "write_error s CLAIMS_FILE = None"
    and plain: "plain_key sp" "plain_key t"
  shows "fst (claimTask s sp t a se p rsn now f)
       = Inr (case nonStaleClaimsOf (isProcessAlive s) f a of
                x # _ \<Rightarrow> already_have_claim (fst x) (snd x)
              | [] \<Rightarrow>
                  (case get2 (readClaimsSync f) sp t of
                     None \<Rightarrow> claim_success now
                   | Some c \<Rightarrow> if isClaimStale (isProcessAlive s) (registry f) c
                               then claim_success now else already_claimed c))
       \<and> completions_json (snd (claimTask s sp t a se p rsn now f)) = completions_json f
       \<and> (\<forall>comps. fst (claimTask s sp t a se p rsn now (f\<lparr>completions_json := comps\<rparr>))
                     = fst (claimTask s sp t a se p rsn now f))"
proof -
  have "fst (claimTask s sp t a se p rsn now (f\<lparr>completions_json := comps\<rparr>))
      = fst (claimTask s sp t a se p rsn now f)" for comps
  proof -
    let ?g = "f\<lparr>completions_json := comps\<rparr>"
    have rg: "readClaimsSync ?g = readClaimsSync f" by (simp add: readClaimsSync_def)
    have ng: "nonStaleClaimsOf (isProcessAlive s) ?g a = nonStaleClaimsOf (isProcessAlive s) f a"
      by (simp add: nonStaleClaimsOf_def rg)
    have reg: "registry ?g = registry f" by simp
    have dg: "distinct_keys (readClaimsSync ?g)" using dk by (simp add: rg)
    have lg: "outcome (acquire s 0 (swarm_lock ?g) []) = Inr ()" using lock by simp
    show ?thesis
      using claimTask_result[OF dg lg w, of sp t a se p rsn now, unfolded rg ng reg]
        claimTask_result[OF dk lock w, of sp t a se p rsn now]
      by simp
  qed
  then show ?thesis using claimTask_result[OF dk lock w, of sp t a se p rsn now] by simp
qed

lemma ex_done_facts:
  "distinct_keys (readClaimsSync ex_done)"
  "swarm_lock ex_done = None"
  "nonStaleClaimsOf ex_alive ex_done ''Gamma'' = []"
  "get2 (readClaimsSync ex_done) ''spec.md'' ''T-7'' = None"
  "get2 (readCompletionsSync ex_done) ''spec.md'' ''T-7'' = Some ex_completion"
  by (simp_all add: ex_done_def ex_fs_def readClaimsSync_def readCompletionsSync_def distinct_keys_def
      inner_distinct_def nonStaleClaimsOf_def get2_def)

theorem claimTask_ignores_completions_witness:
  "distinct_keys (readClaimsSync ex_done)
   \<and> outcome (acquire (ex_sys 102) 0 (swarm_lock ex_done) []) = Inr ()
   \<and> write_error (ex_sys 102) CLAIMS_FILE = None
   \<and> plain_key ''spec.md'' \<and> plain_key ''T-7''
   \<and> get2 (readCompletionsSync ex_done) ''spec.md'' ''T-7'' = Some ex_completion
   \<and> fst (claimTask (ex_sys 102) ''spec.md'' ''T-7'' ''Gamma'' ''s3'' 102 None
            ''2026-01-20T11:00:00.000Z'' ex_done)
       = Inr (claim_success ''2026-01-20T11:00:00.000Z'')
   \<and> completions_json (snd (claimTask (ex_sys 102) ''spec.md'' ''T-7'' ''Gamma'' ''s3'' 102 None
            ''2026-01-20T11:00:00.000Z'' ex_done))
       = completions_json ex_done"
proof -
  have l: "outcome (acquire (ex_sys 102) 0 (swarm_lock ex_done) []) = Inr ()"
    by (simp add: ex_done_facts ex_acquire)
  have w: "write_error (ex_sys 102) CLAIMS_FILE = None" by (simp add: ex_sys_def)
  have al: "isProcessAlive (ex_sys 102) = ex_alive" by (simp add: ex_sys_def)
  have pk: "plain_key ''spec.md''" "plain_key ''T-7''"
    by (simp_all add: plain_key_def Object_prototype_keys_def)
  show ?thesis
    using claimTask_ignores_completions[OF ex_done_facts(1) l w pk, of "''Gamma''"
        "''s3''" 102 None "''2026-01-20T11:00:00.000Z''"]
    by (simp add: ex_done_facts ex_acquire w al pk)
qed

text \<open>
  Claim C1 as stated fails: \<open>completions.json\<close> records the completion of
  (spec.md, T-7), and Gamma's \<open>claimTask\<close> on it succeeds and writes the claim.
\<close>

theorem claimTask_completed_counterexample:
  "get2 (readCompletionsSync ex_done) ''spec.md'' ''T-7'' = Some ex_completion
   \<and> claimTask (ex_sys 102) ''spec.md'' ''T-7'' ''Gamma'' ''s3'' 102 None
            ''2026-01-20T11:00:00.000Z'' ex_done
       = (Inr (claim_success ''2026-01-20T11:00:00.000Z''),
          ex_done\<lparr>claims_json := Some (Parsed
             [(''spec.md'', [(''T-7'', \<lparr>agent = ''Gamma'', sessionId = ''s3'', pid = 102,
                   claimedAt = ''2026-01-20T11:00:00.000Z'', reason = None\<rparr>)])])\<rparr>)"
proof -
  let ?lk = "Some \<lparr>mtimeMs = 1768903200000, content = Some (String_int 102)\<rparr>"
  have "claimTask_locked (ex_sys 102) ''spec.md'' ''T-7'' ''Gamma'' ''s3'' 102 None
            ''2026-01-20T11:00:00.000Z'' (ex_done\<lparr>swarm_lock := ?lk\<rparr>)
       = (Inr (claim_success ''2026-01-20T11:00:00.000Z''),
          ex_done\<lparr>swarm_lock := ?lk, claims_json := Some (Parsed
             [(''spec.md'', [(''T-7'', \<lparr>agent = ''Gamma'', sessionId = ''s3'', pid = 102,
                   claimedAt = ''2026-01-20T11:00:00.000Z'', reason = None\<rparr>)])])\<rparr>)"
    by (simp add: claimTask_locked_def readClaimsSync_def ex_done_def ex_fs_def
        cleanupStaleClaims_def get2_def set2_def obj_set_def array_index_def isDigit_def
        digitsValue_def writeClaimsSync_def ex_sys_def CLAIMS_FILE_def)
  then show ?thesis
    by (simp add: ex_done_facts claimTask_def withSwarmLock_def ex_acquire Let_def)
qed

subsection \<open>One claim per agent\<close>

text \<open>
  Claim C2. Start where the agent holds no claim that is not stale; run any sequence
  of \<open>claimTask\<close>, \<open>unclaimTask\<close> and \<open>completeTask\<close> calls, by any agents, each with
  its own lock attempts and write failures, the processes alive and the registry
  staying as they are. Then the agent holds at most one claim that is not stale, over
  all specs; and whenever it holds one, its \<open>claimTask\<close> (the lock taken, the write of
  the purged claims not failing) returns \<open>already_have_claim\<close> with the spec and the
  task of that claim.
\<close>

theorem single_claim_per_agent:
  assumes dk: "distinct_keys (readClaimsSync f)"
    and os: "\<forall>x \<in> set calls. isProcessAlive (fst x) = alive"
    and none: "nonStaleClaimsOf alive f a = []"
  shows "length (nonStaleClaimsOf alive (run_calls calls f) a) \<le> 1
       \<and> (\<forall>s sp t se p rsn now.
            isProcessAlive s = alive \<and> nonStaleClaimsOf alive (run_calls calls f) a \<noteq> []
            \<and> outcome (acquire s 0 (swarm_lock (run_calls calls f)) []) = Inr ()
            \<and> write_error s CLAIMS_FILE = None
            \<longrightarrow> fst (claimTask s sp t a se p rsn now (run_calls calls f))
                = Inr (already_have_claim
                         (fst (hd (nonStaleClaimsOf alive (run_calls calls f) a)))
                         (snd (hd (nonStaleClaimsOf alive (run_calls calls f) a)))))"
proof -
  let ?g = "run_calls calls f"
  have "single_claim (isClaimStale alive (registry f)) a (readClaimsSync f)"
    using dk none by (simp add: single_claim_def nonStaleClaimsOf_purge[symmetric])
  from run_calls_keeps[OF os this]
  have r: "registry ?g = registry f"
    and i: "single_claim (isClaimStale alive (registry f)) a (readClaimsSync ?g)" by simp_all
  have dg: "distinct_keys (readClaimsSync ?g)" using i by (simp add: single_claim_def)
  have one: "length (nonStaleClaimsOf alive ?g a) \<le> 1"
    using i by (simp add: single_claim_def nonStaleClaimsOf_purge r)
  have "fst (claimTask s sp t a se p rsn now ?g)
      = Inr (already_have_claim (fst (hd (nonStaleClaimsOf alive ?g a)))
                                (snd (hd (nonStaleClaimsOf alive ?g a))))"
    if "isProcessAlive s = alive" "nonStaleClaimsOf alive ?g a \<noteq> []"
       "outcome (acquire s 0 (swarm_lock ?g) []) = Inr ()" "write_error s CLAIMS_FILE = None"
    for s sp t se p rsn now
    using claimTask_result[OF dg that(3) that(4), of sp t a se p rsn now] that(1) that(2)
    by (cases "nonStaleClaimsOf alive ?g a") simp_all
  then show ?thesis using one by blast
qed



subsection \<open>Completion is written before the claim is removed\<close>


lemma ex_lock_free:
  "swarm_lock f = None \<Longrightarrow> outcome (acquire (ex_sys p) 0 (swarm_lock f) []) = Inr ()"
  by (simp add: ex_acquire)

lemma ex_withSwarmLock:
  "swarm_lock f = None \<Longrightarrow>
   withSwarmLock (ex_sys p) fn f
   = (case fn (f\<lparr>swarm_lock := Some \<lparr>mtimeMs = 1768903200000, content = Some (String_int p)\<rparr>\<rparr>) of
        (r, f') \<Rightarrow> (r, f'\<lparr>swarm_lock := None\<rparr>))"
  by (simp add: withSwarmLock_def ex_acquire Let_def)

lemmas ex_eval = claimTask_locked_def readClaimsSync_def readCompletionsSync_def ex_fs_def
  cleanupStaleClaims_def cleanupTasks_def get2_def set2_def delete2_def obj_set_def array_index_def
  isDigit_def digitsValue_def writeClaimsSync_def writeCompletionsSync_def writeIfRemoved_def
  CLAIMS_FILE_def COMPLETIONS_FILE_def AList.delete_eq

lemma ex_stale_G: "\<not> isClaimStale ex_alive ex_registry ex_claimG"
  by (simp add: isClaimStale_def ex_registry_def ex_claimG_def ex_alive_def ex_reg_def)

lemma ex_step1:
  "swarm_step (ex_sys 100) (ClaimCall ''spec.md'' ''T-2'' ''Alpha'' ''s1'' 100 None ''2026-01-20T10:01:00.000Z'')
     (ex_fs [(''spec.md'', [(''T-1'', ex_claimB)])] [])
   = ex_fs [(''spec.md'', [(''T-2'', ex_claimA)])] []"
  by (simp add: claimTask_def ex_withSwarmLock ex_fs_def)
     (simp add: ex_eval ex_sys_def ex_claims_stale ex_claimA_def)

lemma ex_step2:
  "swarm_step (ex_sys 102) (ClaimCall ''spec.md'' ''T-3'' ''Gamma'' ''s3'' 102 None ''2026-01-20T10:03:00.000Z'')
     (ex_fs [(''spec.md'', [(''T-2'', ex_claimA)])] [])
   = ex_fs [(''spec.md'', [(''T-2'', ex_claimA), (''T-3'', ex_claimG)])] []"
  by (simp add: claimTask_def ex_withSwarmLock ex_fs_def)
     (simp add: ex_eval ex_sys_def ex_claims_stale ex_claimG_def, simp add: ex_claimA_def)

lemma ex_step3:
  "swarm_step (ex_sys 100) (ClaimCall ''spec.md'' ''T-4'' ''Alpha'' ''s1'' 100 None ''2026-01-20T10:04:00.000Z'')
     (ex_fs [(''spec.md'', [(''T-2'', ex_claimA), (''T-3'', ex_claimG)])] [])
   = ex_fs [(''spec.md'', [(''T-2'', ex_claimA), (''T-3'', ex_claimG)])] []"
  by (simp add: claimTask_def ex_withSwarmLock ex_fs_def)
     (simp add: ex_eval ex_sys_def ex_claims_stale ex_stale_G, simp add: ex_claimA_def)

lemma ex_run:
  "run_calls ex_calls (ex_fs [(''spec.md'', [(''T-1'', ex_claimB)])] [])
   = ex_fs [(''spec.md'', [(''T-2'', ex_claimA), (''T-3'', ex_claimG)])] []"
  by (simp add: run_calls_def ex_calls_def ex_step1 ex_step2 ex_step3 del: swarm_step.simps)

theorem single_claim_per_agent_witness:
  "distinct_keys (readClaimsSync (ex_fs [(''spec.md'', [(''T-1'', ex_claimB)])] []))
   \<and> list_all (\<lambda>x. isProcessAlive (fst x) = ex_alive) ex_calls
   \<and> nonStaleClaimsOf ex_alive (ex_fs [(''spec.md'', [(''T-1'', ex_claimB)])] []) ''Alpha'' = []
   \<and> nonStaleClaimsOf ex_alive
         (run_calls ex_calls (ex_fs [(''spec.md'', [(''T-1'', ex_claimB)])] [])) ''Alpha''
       = [(''spec.md'', ''T-2'')]
   \<and> length (nonStaleClaimsOf ex_alive
         (run_calls ex_calls (ex_fs [(''spec.md'', [(''T-1'', ex_claimB)])] [])) ''Alpha'') \<le> 1
   \<and> fst (claimTask (ex_sys 100) ''other.md'' ''T-9'' ''Alpha'' ''s1'' 100 None
            ''2026-01-20T10:05:00.000Z''
            (run_calls ex_calls (ex_fs [(''spec.md'', [(''T-1'', ex_claimB)])] [])))
       = Inr (already_have_claim ''spec.md'' ''T-2'')"
proof -
  let ?f = "ex_fs [(''spec.md'', [(''T-1'', ex_claimB)])] []"
  have dk: "distinct_keys (readClaimsSync ?f)"
    by (simp add: readClaimsSync_def ex_fs_def distinct_keys_def inner_distinct_def)
  have os: "\<forall>x \<in> set ex_calls. isProcessAlive (fst x) = ex_alive"
    by (simp add: ex_calls_def ex_sys_def)
  have none: "nonStaleClaimsOf ex_alive ?f ''Alpha'' = []"
    by (simp add: nonStaleClaimsOf_def readClaimsSync_def ex_fs_def ex_claimB_def)
  have held: "nonStaleClaimsOf ex_alive (run_calls ex_calls ?f) ''Alpha'' = [(''spec.md'', ''T-2'')]"
    unfolding ex_run
    by (simp add: nonStaleClaimsOf_def readClaimsSync_def ex_fs_def ex_claims_stale)
       (simp add: ex_claimA_def ex_claimG_def)
  have lk: "outcome (acquire (ex_sys 100) 0 (swarm_lock (run_calls ex_calls ?f)) []) = Inr ()"
    unfolding ex_run by (simp add: ex_fs_def ex_acquire)
  have w: "write_error (ex_sys 100) CLAIMS_FILE = None" "isProcessAlive (ex_sys 100) = ex_alive"
    by (simp_all add: ex_sys_def)
  from single_claim_per_agent[OF dk os none]
  have "length (nonStaleClaimsOf ex_alive (run_calls ex_calls ?f) ''Alpha'') \<le> 1"
    and "fst (claimTask (ex_sys 100) ''other.md'' ''T-9'' ''Alpha'' ''s1'' 100 None
            ''2026-01-20T10:05:00.000Z'' (run_calls ex_calls ?f))
       = Inr (already_have_claim ''spec.md'' ''T-2'')"
    using held lk w by auto
  then show ?thesis using dk os none held by (simp add: list_all_iff)
qed





section \<open>Message processing\<close>












lemma world_vars_same: "w\<lparr>vars := vars w\<rparr> = w"
  by simp







section \<open>Name generation\<close>

lemma String_nat_nonempty: "String_nat i \<noteq> []"
  unfolding String_nat_def by (subst natDigits.simps) simp

lemma probeFrom_result:
  "probeFrom alive reg baseName i = Some n \<Longrightarrow>
   \<exists>j. i \<le> j \<and> j \<le> 99 \<and> n = baseName @ String_nat j
       \<and> (case reg n of None \<Rightarrow> True | Some Malformed \<Rightarrow> True
           | Some (Parsed r) \<Rightarrow> \<not> alive (AgentRegistration.pid r))"
proof (induction alive reg baseName i rule: probeFrom.induct)
  case (1 alive reg baseName i)
  show ?case
  proof (cases "i \<le> 99")
    case False
    then show ?thesis using "1.prems" by (subst (asm) probeFrom.simps) simp
  next
    case True
    let ?alt = "baseName @ String_nat i"
    show ?thesis
    proof (cases "reg ?alt")
      case None
      then have "n = ?alt" using "1.prems" True by (subst (asm) probeFrom.simps) (simp add: Let_def)
      then show ?thesis using True None by (intro exI[of _ i]) simp
    next
      case (Some jf)
      show ?thesis
      proof (cases jf)
        case Malformed
        then have "n = ?alt" using "1.prems" True Some by (subst (asm) probeFrom.simps) (simp add: Let_def)
        then show ?thesis using True Some Malformed by (intro exI[of _ i]) simp
      next
        case (Parsed altReg)
        show ?thesis
        proof (cases "alive (AgentRegistration.pid altReg)")
          case False
          then have "n = ?alt"
            using "1.prems" True Some Parsed by (subst (asm) probeFrom.simps) (simp add: Let_def)
          then show ?thesis using True Some Parsed False by (intro exI[of _ i]) simp
        next
          case live: True
          then have "probeFrom alive reg baseName (i + 1) = Some n"
            using "1.prems" True Some Parsed by (subst (asm) probeFrom.simps) (simp add: Let_def)
          from "1.IH"[OF True refl Some Parsed _ this] live
          obtain j where "i + 1 \<le> j" "j \<le> 99" "n = baseName @ String_nat j"
            "(case reg n of None \<Rightarrow> True | Some Malformed \<Rightarrow> True
               | Some (Parsed r) \<Rightarrow> \<not> alive (AgentRegistration.pid r))"
            by auto
          then show ?thesis by (intro exI[of _ j]) simp
        qed
      qed
    qed
  qed
qed

text \<open>
  Claim C10. \<open>findAvailableName\<close> answers the base name when its record carries the caller's
  own process id; it answers the base name exactly when there is no record, the record is
  malformed, its process is dead or it is the caller's; an alternative it answers is
  \<open>base2\<close> .. \<open>base99\<close> with no live record, and a numbered name whose live record
  carries the caller's own process id is never answered.
\<close>

theorem findAvailableName_own_pid:
  "(reg baseName = Some (Parsed existing) \<and> AgentRegistration.pid existing = mypid
      \<longrightarrow> findAvailableName alive mypid reg baseName = Some baseName)
   \<and> ((findAvailableName alive mypid reg baseName = Some baseName)
       = (case reg baseName of
            None \<Rightarrow> True
          | Some Malformed \<Rightarrow> True
          | Some (Parsed r) \<Rightarrow> \<not> alive (AgentRegistration.pid r) \<or> AgentRegistration.pid r = mypid))
   \<and> (\<forall>n. findAvailableName alive mypid reg baseName = Some n \<and> n \<noteq> baseName
        \<longrightarrow> (\<exists>i. 2 \<le> i \<and> i \<le> 99 \<and> n = baseName @ String_nat i
               \<and> (case reg n of
                     None \<Rightarrow> True
                   | Some Malformed \<Rightarrow> True
                   | Some (Parsed r) \<Rightarrow> \<not> alive (AgentRegistration.pid r))))
   \<and> (\<forall>i r. reg (baseName @ String_nat i) = Some (Parsed r)
            \<and> AgentRegistration.pid r = mypid \<and> alive mypid
        \<longrightarrow> findAvailableName alive mypid reg baseName \<noteq> Some (baseName @ String_nat i))"
proof -
  have alt: "\<exists>i. 2 \<le> i \<and> i \<le> 99 \<and> n = baseName @ String_nat i
               \<and> (case reg n of None \<Rightarrow> True | Some Malformed \<Rightarrow> True
                   | Some (Parsed r) \<Rightarrow> \<not> alive (AgentRegistration.pid r))"
    if "findAvailableName alive mypid reg baseName = Some n" "n \<noteq> baseName" for n
  proof -
    have "probeFrom alive reg baseName 2 = Some n"
      using that by (auto simp: findAvailableName_def split: option.splits json_file.splits if_splits)
    then show ?thesis using probeFrom_result by blast
  qed
  have ne: "baseName @ String_nat i \<noteq> baseName" for i by (simp add: String_nat_nonempty)
  have base: "(findAvailableName alive mypid reg baseName = Some baseName)
       = (case reg baseName of None \<Rightarrow> True | Some Malformed \<Rightarrow> True
          | Some (Parsed r) \<Rightarrow> \<not> alive (AgentRegistration.pid r) \<or> AgentRegistration.pid r = mypid)"
  proof (cases "reg baseName")
    case None
    then show ?thesis by (simp add: findAvailableName_def)
  next
    case (Some jf)
    show ?thesis
    proof (cases jf)
      case Malformed
      then show ?thesis using Some by (simp add: findAvailableName_def)
    next
      case (Parsed r)
      have "probeFrom alive reg baseName 2 \<noteq> Some baseName"
        using probeFrom_result[of alive reg baseName 2 baseName] ne by auto
      then show ?thesis using Some Parsed by (simp add: findAvailableName_def)
    qed
  qed
  have own: "findAvailableName alive mypid reg baseName \<noteq> Some (baseName @ String_nat i)"
    if "reg (baseName @ String_nat i) = Some (Parsed r)" "AgentRegistration.pid r = mypid" "alive mypid"
    for i r
    using alt[of "baseName @ String_nat i"] ne[of i] that by auto
  show ?thesis using alt base own by (auto simp: findAvailableName_def)
qed

lemma ex_String_nat: "String_nat 2 = ''2''" "String_nat 3 = ''3''"
  by code_simp+

theorem findAvailableName_own_pid_witness:
  "findAvailableName ex_alive 100 ex_swift ''Swift'' = Some ''Swift''
   \<and> ex_swift (''Swift'' @ String_nat 2) = Some (Parsed (ex_reg ''Swift2'' 102 ''s3''))
   \<and> AgentRegistration.pid (ex_reg ''Swift2'' 102 ''s3'') = 102 \<and> ex_alive 102
   \<and> findAvailableName ex_alive 102 ex_swift ''Swift'' \<noteq> Some ''Swift2''
   \<and> findAvailableName ex_alive 102 ex_swift ''Swift'' = Some ''Swift3''"
proof -
  have own: "ex_swift ''Swift'' = Some (Parsed (ex_reg ''Swift'' 100 ''s1''))"
    "AgentRegistration.pid (ex_reg ''Swift'' 100 ''s1'') = 100"
    by (simp_all add: ex_swift_def ex_reg_def)
  have two: "ex_swift (''Swift'' @ String_nat 2) = Some (Parsed (ex_reg ''Swift2'' 102 ''s3''))"
    "AgentRegistration.pid (ex_reg ''Swift2'' 102 ''s3'') = 102" "ex_alive 102"
    by (simp_all add: ex_swift_def ex_reg_def ex_String_nat ex_alive_def)
  have three: "findAvailableName ex_alive 102 ex_swift ''Swift'' = Some ''Swift3''"
    by (simp add: findAvailableName_def ex_swift_def ex_reg_def ex_alive_def probeFrom.simps
        ex_String_nat)
  from findAvailableName_own_pid[of ex_swift "''Swift''" "ex_reg ''Swift'' 100 ''s1''" 100 ex_alive]
  have a: "findAvailableName ex_alive 100 ex_swift ''Swift'' = Some ''Swift''"
    using own by blast
  from findAvailableName_own_pid[of ex_swift "''Swift''" "ex_reg ''Swift'' 100 ''s1''" 102 ex_alive]
  have b: "findAvailableName ex_alive 102 ex_swift ''Swift'' \<noteq> Some (''Swift'' @ String_nat 2)"
    using two by blast
  show ?thesis using a b two three by (simp add: ex_String_nat)
qed


section \<open>Sending\<close>











section \<open>Renaming\<close>






















section \<open>The verdict parser\<close>

lemma litAt_iff:
  "litAt ic l rest = (\<exists>h r. rest = h @ r \<and> map (canon ic) h = map (canon ic) l)"
proof
  assume a: "litAt ic l rest"
  then have "rest = take (length l) rest @ drop (length l) rest
      \<and> map (canon ic) (take (length l) rest) = map (canon ic) l"
    by (simp add: litAt_def)
  then show "\<exists>h r. rest = h @ r \<and> map (canon ic) h = map (canon ic) l" by blast
next
  assume "\<exists>h r. rest = h @ r \<and> map (canon ic) h = map (canon ic) l"
  then obtain h r where r: "rest = h @ r" and e: "map (canon ic) h = map (canon ic) l" by blast
  have "length h = length l" using e by (rule map_eq_imp_length_eq)
  then show "litAt ic l rest" using r e by (simp add: litAt_def)
qed

lemma same_drop:
  "map (canon ic) h = map (canon ic) l \<Longrightarrow> drop (length l) (h @ r) = r"
  using map_eq_imp_length_eq[of "canon ic" h "canon ic" l] by simp

lemma accepts_Lit:
  "accepts ic (Lit l # ns) rest = (litAt ic l rest \<and> accepts ic ns (drop (length l) rest))"
proof
  assume "accepts ic (Lit l # ns) rest"
  then obtain h r where r: "rest = h @ r" and e: "map (canon ic) h = map (canon ic) l"
    and a: "accepts ic ns r" by auto
  have "litAt ic l rest" unfolding litAt_iff using r e by blast
  moreover have "drop (length l) rest = r" unfolding r by (rule same_drop[OF e])
  ultimately show "litAt ic l rest \<and> accepts ic ns (drop (length l) rest)"
    using a by simp
next
  assume b: "litAt ic l rest \<and> accepts ic ns (drop (length l) rest)"
  then obtain h r where r: "rest = h @ r" and e: "map (canon ic) h = map (canon ic) l"
    unfolding litAt_iff by blast
  have "drop (length l) rest = r" unfolding r by (rule same_drop[OF e])
  then have "accepts ic ns r" using b by simp
  then have "rest = h @ r \<and> map (canon ic) h = map (canon ic) l \<and> accepts ic ns r"
    using r e by simp
  then show "accepts ic (Lit l # ns) rest" unfolding accepts.simps by blast
qed

lemma accepts_Star:
  "accepts ic (Star c # ns) rest
     = (accepts ic ns rest
        \<or> (case rest of [] \<Rightarrow> False | x # xs \<Rightarrow> inClass c x \<and> accepts ic (Star c # ns) xs))"
proof
  assume "accepts ic (Star c # ns) rest"
  then obtain w r where r: "rest = w @ r" and w: "list_all (inClass c) w" and a: "accepts ic ns r"
    by auto
  show "accepts ic ns rest
        \<or> (case rest of [] \<Rightarrow> False | x # xs \<Rightarrow> inClass c x \<and> accepts ic (Star c # ns) xs)"
  proof (cases w)
    case Nil
    then show ?thesis using r a by simp
  next
    case (Cons x w')
    then have "accepts ic (Star c # ns) (w' @ r)" using w a by auto
    then show ?thesis using Cons r w by simp
  qed
next
  assume b: "accepts ic ns rest
        \<or> (case rest of [] \<Rightarrow> False | x # xs \<Rightarrow> inClass c x \<and> accepts ic (Star c # ns) xs)"
  show "accepts ic (Star c # ns) rest"
  proof (cases "accepts ic ns rest")
    case True
    then have "rest = [] @ rest \<and> list_all (inClass c) [] \<and> accepts ic ns rest" by simp
    then show ?thesis unfolding accepts.simps by blast
  next
    case False
    then obtain x xs where x: "rest = x # xs" "inClass c x" "accepts ic (Star c # ns) xs"
      using b by (auto split: list.splits)
    then obtain w r where "xs = w @ r" "list_all (inClass c) w" "accepts ic ns r" by auto
    then have "rest = (x # w) @ r \<and> list_all (inClass c) (x # w) \<and> accepts ic ns r"
      using x by simp
    then show ?thesis unfolding accepts.simps by blast
  qed
qed

lemma accepts_LazyStar_Star: "accepts ic (LazyStar c # ns) rest = accepts ic (Star c # ns) rest"
  by simp

lemma accepts_LazyStar:
  "accepts ic (LazyStar c # ns) rest
     = (accepts ic ns rest
        \<or> (case rest of [] \<Rightarrow> False | x # xs \<Rightarrow> inClass c x \<and> accepts ic (LazyStar c # ns) xs))"
  unfolding accepts_LazyStar_Star by (rule accepts_Star)

lemma accepts_Plus:
  "accepts ic (Plus c # ns) rest
     = (case rest of [] \<Rightarrow> False | x # xs \<Rightarrow> inClass c x \<and> accepts ic (Star c # ns) xs)"
proof
  assume "accepts ic (Plus c # ns) rest"
  then obtain w r where r: "rest = w @ r" "w \<noteq> []" and w: "list_all (inClass c) w"
    and a: "accepts ic ns r" by auto
  then obtain x w' where c: "w = x # w'" by (cases w) auto
  then have "accepts ic (Star c # ns) (w' @ r)" using w a by auto
  then show "case rest of [] \<Rightarrow> False | x # xs \<Rightarrow> inClass c x \<and> accepts ic (Star c # ns) xs"
    using c r w by simp
next
  assume "case rest of [] \<Rightarrow> False | x # xs \<Rightarrow> inClass c x \<and> accepts ic (Star c # ns) xs"
  then obtain x xs where x: "rest = x # xs" "inClass c x" "accepts ic (Star c # ns) xs"
    by (auto split: list.splits)
  then obtain w r where "xs = w @ r" "list_all (inClass c) w" "accepts ic ns r" by auto
  then have "rest = (x # w) @ r \<and> x # w \<noteq> [] \<and> list_all (inClass c) (x # w) \<and> accepts ic ns r"
    using x by simp
  then show "accepts ic (Plus c # ns) rest" unfolding accepts.simps by blast
qed

lemma accepts_Opt:
  "accepts ic (Opt l # ns) rest
     = (accepts ic ns rest \<or> (litAt ic l rest \<and> accepts ic ns (drop (length l) rest)))"
  using accepts_Lit[of ic l ns rest] by simp

lemma accepts_AltLit_Nil: "accepts ic (AltLit [] # ns) rest = False"
  by simp

lemma accepts_AltLit_Cons:
  "accepts ic (AltLit (l # ls) # ns) rest
     = ((litAt ic l rest \<and> accepts ic ns (drop (length l) rest)) \<or> accepts ic (AltLit ls # ns) rest)"
  unfolding accepts_Lit[symmetric] by auto

lemmas accepts_step =
  accepts_Lit accepts_Star accepts_LazyStar accepts_Plus accepts_Opt accepts_AltLit_Nil
  accepts_AltLit_Cons

lemma run_accepts: "(run ic ns rest i st cap = None) = (\<not> accepts ic ns rest)"
proof (induction ic ns rest i st cap rule: run.induct)
  case (1 ic rest i st cap)
  then show ?case by simp
next
  case (2 ic l ns rest i st cap)
  then show ?case by (simp add: accepts_Lit del: accepts.simps)
next
  case (3 ic c ns rest i st cap)
  show ?case
  proof (cases rest)
    case Nil
    then show ?thesis using 3(1) by (subst accepts_Star) (simp del: accepts.simps)
  next
    case (Cons x xs)
    show ?thesis
    proof (cases "inClass c x")
      case True
      then show ?thesis
        using Cons 3(2)[OF Cons True] 3(3)[OF Cons True]
        by (subst accepts_Star) (auto simp del: accepts.simps split: option.splits)
    next
      case False
      then show ?thesis
        using Cons 3(4)[OF Cons False]
        by (subst accepts_Star) (simp del: accepts.simps)
    qed
  qed
next
  case (4 ic c ns rest i st cap)
  show ?case
  proof (cases "run ic ns rest i st cap")
    case (Some r)
    then have "accepts ic ns rest" using 4(1) by simp
    then show ?thesis using Some by (subst accepts_LazyStar) (simp del: accepts.simps)
  next
    case None
    then have n: "\<not> accepts ic ns rest" using 4(1) by simp
    show ?thesis
    proof (cases rest)
      case Nil
      then show ?thesis using None n by (subst accepts_LazyStar) (simp del: accepts.simps)
    next
      case (Cons x xs)
      show ?thesis
      proof (cases "inClass c x")
        case True
        then show ?thesis
          using None n Cons 4(2)[OF None Cons True]
          by (subst accepts_LazyStar) (simp del: accepts.simps)
      next
        case False
        then show ?thesis
          using None n Cons by (subst accepts_LazyStar) (simp del: accepts.simps)
      qed
    qed
  qed
next
  case (5 ic c ns rest i st cap)
  show ?case
  proof (cases rest)
    case Nil
    then show ?thesis by (subst accepts_Plus) simp
  next
    case (Cons x xs)
    then show ?thesis
      using 5[OF Cons] by (subst accepts_Plus) (simp del: accepts.simps)
  qed
next
  case (6 ic l ns rest i st cap)
  show ?case
  proof (cases "litAt ic l rest")
    case True
    then show ?thesis
      using 6(1)[OF True] 6(2)[OF True]
      by (subst accepts_Opt) (auto simp del: accepts.simps split: option.splits)
  next
    case False
    then show ?thesis
      using 6(3)[OF False] by (subst accepts_Opt) (simp del: accepts.simps)
  qed
next
  case (7 ic ns rest i st cap)
  then show ?case by simp
next
  case (8 ic l ls ns rest i st cap)
  show ?case
  proof (cases "litAt ic l rest")
    case True
    then show ?thesis
      using 8(1)[OF True] 8(2)
      by (subst accepts_AltLit_Cons) (auto simp del: accepts.simps split: option.splits)
  next
    case False
    then show ?thesis
      using 8(2) by (subst accepts_AltLit_Cons) (simp del: accepts.simps)
  qed
next
  case (9 ic ns rest i st cap)
  then show ?case by simp
next
  case (10 ic ns rest i st cap)
  then show ?case by simp
next
  case (11 ic looks ns rest i st cap)
  then show ?case by simp
qed

lemma run_Some_accepts: "accepts ic ns rest \<Longrightarrow> \<exists>r. run ic ns rest i st cap = Some r"
  using run_accepts[of ic ns rest i st cap] by auto






lemma accepts_LazyStarI:
  "list_all (inClass c) w \<Longrightarrow> accepts ic ns r \<Longrightarrow> accepts ic (LazyStar c # ns) (w @ r)"
  by auto


lemma canon_fixed: "c < 97 \<Longrightarrow> (canon True x = c) = (x = c \<or> (65 \<le> c \<and> c \<le> 90 \<and> x = c + 32))"
  by (auto simp: canon_def)























end
